theory Spec2Isabelle
  imports Complex_Main "HOL-Library.Log_Nat"
begin

section \<open>Elmish random generators: the embedding\<close>

text \<open>
  The library wraps a \<^emph>\<open>source\<close>, a zero-argument closure that returns one value per call,
  into a generator object with the three members \<open>map\<close>, \<open>then\<close> and \<open>next\<close>.

  Modelling decisions, each forced by the source:
  \<^item> A source is a closure that may read and write private variables (the seed of
    \<open>simpleSeeded\<close>, the state behind \<open>Math.random\<close>). That hidden state is the
    explicit type parameter \<open>'s\<close>: calling a source takes the state and returns the
    state after the call. An array the caller passes is a reference: its content is read
    from the state at the moment the code reads it.
  \<^item> \<open>getByWeight\<close> throws. A call therefore returns \<open>error + 'a\<close>, with \<open>Inl\<close>
    the thrown error, and every caller propagates it, as the exception would unwind
    through \<open>source()\<close>, \<open>transformer(...)\<close> and \<open>generator.next()\<close>. The state
    reached before the throw is kept.
  \<^item> The TypeScript type \<open>number\<close> is the IEEE 754 binary64 format: every arithmetic
    operation rounds its exact result to the nearest double, ties to even, and overflows
    to an infinity; the type \<open>number\<close> below has the finite values, the two
    infinities and NaN. Loop and recursion counters that start at \<open>0\<close> and are only
    incremented are natural numbers, and so is \<open>precision\<close>.
  \<^item> Reading an array outside its bounds gives \<open>undefined\<close> in JavaScript, and writing
    beyond its end extends it with holes; arrays that are read or written by a computed
    index hold values of the type \<open>'a js\<close>.
\<close>

subsection \<open>Numbers\<close>

text \<open>
  A finite double is kept as the real number it denotes; \<open>is_double\<close> says which reals
  are doubles. The two zeros are identified: none of the operations used by the library
  tells them apart (the one division is by \<open>10 ** precision\<close>, which is never zero).
\<close>

datatype number = Fin real | PInf | NInf | NaN

text \<open>
  \<open>expo x\<close> is the binary exponent of a non-zero \<open>x\<close>, the integer \<open>e\<close> with
  \<open>2 ^ e \<le> |x| < 2 ^ (e + 1)\<close>, computed from the bit length of an integer.
\<close>

definition expo :: "real \<Rightarrow> int" where
  "expo x = (if 1 \<le> \<bar>x\<bar> then bitlen \<lfloor>\<bar>x\<bar>\<rfloor> - 1 else - bitlen (\<lceil>1 / \<bar>x\<bar>\<rceil> - 1))"

text \<open>Rounding to the nearest integer, a tie going to the even one.\<close>

definition rhe :: "real \<Rightarrow> int" where
  "rhe m = (let f = \<lfloor>m\<rfloor>; d = m - of_int f in
            if d < 1 / 2 then f else if 1 / 2 < d then f + 1
            else if even f then f else f + 1)"

text \<open>
  The distance between neighbouring doubles at the magnitude of \<open>x\<close>: 52 binary places
  below the exponent, the exponent being at least \<open>- 1022\<close> (subnormal numbers).
\<close>

definition quantum :: "real \<Rightarrow> real" where
  "quantum x = 2 powi (max (expo x) (- 1022) - 52)"

text \<open>
  Rounding a real number to binary64 (roundTiesToEven): the nearest multiple of the
  quantum, and an infinity when that reaches \<open>2 ^ 1024\<close>.
\<close>

definition round64 :: "real \<Rightarrow> number" where
  "round64 x =
     (if x = 0 then Fin 0
      else
        (let y = of_int (rhe (x / quantum x)) * quantum x
         in if 2 ^ 1024 \<le> y then PInf else if y \<le> - (2 ^ 1024) then NInf else Fin y))"

definition is_double :: "real \<Rightarrow> bool" where
  "is_double x = (round64 x = Fin x)"

text \<open>The operators \<open>+\<close>, \<open>-\<close>, \<open>*\<close>, \<open>/\<close>, \<open><=\<close> and \<open>Math.floor\<close> on numbers.\<close>

fun js_add :: "number \<Rightarrow> number \<Rightarrow> number" where
  "js_add (Fin a) (Fin b) = round64 (a + b)"
| "js_add NaN _ = NaN"
| "js_add _ NaN = NaN"
| "js_add PInf NInf = NaN"
| "js_add NInf PInf = NaN"
| "js_add PInf _ = PInf"
| "js_add _ PInf = PInf"
| "js_add NInf _ = NInf"
| "js_add _ NInf = NInf"

fun js_sub :: "number \<Rightarrow> number \<Rightarrow> number" where
  "js_sub (Fin a) (Fin b) = round64 (a - b)"
| "js_sub NaN _ = NaN"
| "js_sub _ NaN = NaN"
| "js_sub PInf PInf = NaN"
| "js_sub NInf NInf = NaN"
| "js_sub PInf _ = PInf"
| "js_sub _ PInf = NInf"
| "js_sub NInf _ = NInf"
| "js_sub _ NInf = PInf"

fun js_mul :: "number \<Rightarrow> number \<Rightarrow> number" where
  "js_mul (Fin a) (Fin b) = round64 (a * b)"
| "js_mul NaN _ = NaN"
| "js_mul _ NaN = NaN"
| "js_mul PInf (Fin b) = (if b = 0 then NaN else if 0 < b then PInf else NInf)"
| "js_mul NInf (Fin b) = (if b = 0 then NaN else if 0 < b then NInf else PInf)"
| "js_mul (Fin a) PInf = (if a = 0 then NaN else if 0 < a then PInf else NInf)"
| "js_mul (Fin a) NInf = (if a = 0 then NaN else if 0 < a then NInf else PInf)"
| "js_mul PInf PInf = PInf"
| "js_mul PInf NInf = NInf"
| "js_mul NInf PInf = NInf"
| "js_mul NInf NInf = PInf"

text \<open>A zero divisor is taken as \<open>+0\<close>; the library never divides by zero.\<close>

fun js_div :: "number \<Rightarrow> number \<Rightarrow> number" where
  "js_div (Fin a) (Fin b) =
     (if b = 0 then (if a = 0 then NaN else if 0 < a then PInf else NInf)
      else round64 (a / b))"
| "js_div NaN _ = NaN"
| "js_div _ NaN = NaN"
| "js_div (Fin a) PInf = Fin 0"
| "js_div (Fin a) NInf = Fin 0"
| "js_div PInf (Fin b) = (if 0 \<le> b then PInf else NInf)"
| "js_div NInf (Fin b) = (if 0 \<le> b then NInf else PInf)"
| "js_div PInf PInf = NaN"
| "js_div PInf NInf = NaN"
| "js_div NInf PInf = NaN"
| "js_div NInf NInf = NaN"

fun js_floor :: "number \<Rightarrow> number" where
  "js_floor (Fin a) = Fin (of_int \<lfloor>a\<rfloor>)"
| "js_floor PInf = PInf"
| "js_floor NInf = NInf"
| "js_floor NaN = NaN"

fun js_le :: "number \<Rightarrow> number \<Rightarrow> bool" where
  "js_le (Fin a) (Fin b) = (a \<le> b)"
| "js_le NaN _ = False"
| "js_le _ NaN = False"
| "js_le NInf _ = True"
| "js_le _ PInf = True"
| "js_le PInf _ = False"
| "js_le _ NInf = False"

text \<open>
  \<open>10 ** precision\<close> for a natural number \<open>precision\<close>: the power of ten, rounded (it is
  exact up to \<open>10 ** 22\<close>).
\<close>

definition js_pow10 :: "nat \<Rightarrow> number" where
  "js_pow10 precision = round64 (10 ^ precision)"

subsection \<open>The generator engine\<close>

datatype error = Error string | TypeError

datatype 'a js = Undefined | Val 'a

type_synonym ('s, 'a) Source = "'s \<Rightarrow> (error + 'a) \<times> 's"

text \<open>
  A generator is the object \<open>generate(source)\<close> returns. Its members are closures over
  \<open>source\<close> and nothing else, so the object is determined by its source; the members are
  the functions \<open>map_gen\<close>, \<open>then_gen\<close> and \<open>next_gen\<close> below.
\<close>

datatype ('s, 'a) Generator = Generator (source_of: "('s, 'a) Source")

definition generate :: "('s, 'a) Source \<Rightarrow> ('s, 'a) Generator" where
  "generate source = Generator source"

text \<open>
  \<open>obj.next = (): A => source()\<close>. The arrow function declares no parameter, and a
  JavaScript call may still pass arguments: \<open>args\<close> stands for whatever the call site
  passes (\<open>()\<close> for an empty argument list), and the body never mentions it.
\<close>

definition next_gen :: "('s, 'a) Generator \<Rightarrow> 'x \<Rightarrow> ('s, 'a) Source" where
  "next_gen g args = (\<lambda>s. source_of g s)"

text \<open>
  \<open>obj.map = transformer => generate(() => transformer(source()))\<close>. A transformer is a
  JavaScript function: it is called in the state the source left, it may read that state
  (the one \<open>uniform\<close> passes reads the caller's array), change it, and throw (the one
  \<open>weighted\<close> passes does). A transformer without effects is \<open>\<lambda>a s. (Inr (f a), s)\<close>.
\<close>

definition map_gen ::
  "('s, 'a) Generator \<Rightarrow> ('a \<Rightarrow> ('s, 'b) Source) \<Rightarrow> ('s, 'b) Generator" where
  "map_gen g transformer =
     generate (\<lambda>s. case source_of g s of
                      (Inl e, s') \<Rightarrow> (Inl e, s')
                    | (Inr a, s') \<Rightarrow> transformer a s')"

text \<open>
  \<open>obj.then = transformer => generate(() => transformer(source()).next())\<close>. The
  generator the transformer returns is used for one \<open>next()\<close> call, made with no argument
  from the state the source left.
\<close>

definition then_gen :: "('s, 'a) Generator \<Rightarrow> ('a \<Rightarrow> ('s, 'b) Generator) \<Rightarrow> ('s, 'b) Generator" where
  "then_gen g transformer =
     generate (\<lambda>s. case source_of g s of
                      (Inl e, s') \<Rightarrow> (Inl e, s')
                    | (Inr a, s') \<Rightarrow> next_gen (transformer a) () s')"

subsection \<open>Numeric primitives\<close>

text \<open>\<open>float(min, max, source) = generate(source).map(f => min + (max - min) * f)\<close>.\<close>

definition float :: "number \<Rightarrow> number \<Rightarrow> ('s, number) Source \<Rightarrow> ('s, number) Generator" where
  "float mn mx source =
     map_gen (generate source) (\<lambda>f s. (Inr (js_add mn (js_mul (js_sub mx mn) f)), s))"

text \<open>
  \<open>toPrecision(precision)(x)\<close>: \<open>power = 10 ** precision\<close>, then
  \<open>Math.floor(x * power) / power\<close>.
\<close>

definition toPrecision :: "nat \<Rightarrow> number \<Rightarrow> number" where
  "toPrecision precision x =
     (let power = js_pow10 precision in js_div (js_floor (js_mul x power)) power)"

definition floatWithPrecision ::
  "number \<Rightarrow> number \<Rightarrow> nat \<Rightarrow> ('s, number) Source \<Rightarrow> ('s, number) Generator" where
  "floatWithPrecision mn mx precision source =
     map_gen (float mn mx source) (\<lambda>x s. (Inr (toPrecision precision x), s))"

definition int_gen :: "number \<Rightarrow> number \<Rightarrow> ('s, number) Source \<Rightarrow> ('s, number) Generator" where
  "int_gen mn mx source = floatWithPrecision mn (js_add mx (Fin 1)) 0 source"

subsection \<open>Selection primitives\<close>

definition constant_gen :: "'a \<Rightarrow> ('s, 'a) Generator" where
  "constant_gen v = generate (\<lambda>s. (Inr v, s))"



text \<open>
  \<open>continiousSum(source, target = [], i = 0, sum = 0)\<close>. The recursion stops when
  \<open>i === source.length\<close>; beyond the end \<open>source[i]\<close> is \<open>undefined\<close> and reading
  its component \<open>[0]\<close> throws a \<open>TypeError\<close>.
\<close>

function continiousSum ::
  "('a \<times> number) list \<Rightarrow> ('a \<times> number) list \<Rightarrow> nat \<Rightarrow> number \<Rightarrow> error + ('a \<times> number) list" where
  "continiousSum source target i sumv =
     (if i = length source then Inr target
      else if i < length source then
        continiousSum source (target @ [(fst (source ! i), js_add (snd (source ! i)) sumv)])
          (i + 1) (js_add sumv (snd (source ! i)))
      else Inl TypeError)"
  by pat_completeness auto
termination
  by (relation "measure (\<lambda>(source, target, i, sumv). length source - i)") auto

text \<open>
  \<open>getByWeight(source, weight, i = 0)\<close>: the first entry from index \<open>i\<close> on whose
  second component is at least \<open>weight\<close>; the \<open>throw\<close> when the scan runs off the end.
\<close>

function getByWeight :: "('a \<times> number) list \<Rightarrow> number \<Rightarrow> nat \<Rightarrow> error + 'a" where
  "getByWeight source weight i =
     (if i < length source then
        (if js_le weight (snd (source ! i)) then Inr (fst (source ! i))
         else getByWeight source weight (i + 1))
      else Inl (Error ''Uhhh... bad!!!!''))"
  by pat_completeness auto
termination
  by (relation "measure (\<lambda>(source, weight, i). length source - i)") auto

text \<open>
  \<open>weighted(first, rest, source)\<close>. \<open>sum\<close> is \<open>rest.reduce((acc, pair) => acc + pair[1],
  first[1])\<close>. The array \<open>rest\<close> is read only while \<open>weighted\<close> runs, so it is passed
  as the list it holds then. \<open>continiousSum\<close> runs when the generator is built, so an
  error it raised would leave \<open>weighted\<close> itself: the result is \<open>error + Generator\<close>.
\<close>

definition weighted ::
  "'a \<times> number \<Rightarrow> ('a \<times> number) list \<Rightarrow> ('s, number) Source \<Rightarrow> error + ('s, 'a) Generator" where
  "weighted first rest source =
     (if length rest = 0 then Inr (constant_gen (fst first))
      else
        (let sumv = foldl (\<lambda>acc pair. js_add acc (snd pair)) (snd first) rest in
         case continiousSum (first # rest) [] 0 (Fin 0) of
           Inl e \<Rightarrow> Inl e
         | Inr normalized \<Rightarrow>
             Inr (map_gen (float (Fin 0) sumv source) (\<lambda>x s. (getByWeight normalized x 0, s)))))"

subsection \<open>Structural combinators\<close>

text \<open>
  \<open>result[i] = v\<close> on a JavaScript array: an index inside the array overwrites, the
  index \<open>result.length\<close> appends, a larger one leaves holes (which read as
  \<open>undefined\<close>) in between.
\<close>

definition js_store :: "'a js list \<Rightarrow> nat \<Rightarrow> 'a \<Rightarrow> 'a js list" where
  "js_store result i v =
     (if i < length result then result[i := Val v]
      else result @ replicate (i - length result) Undefined @ [Val v])"

text \<open>
  The loop of \<open>list\<close>: \<open>for (let i = 0; i < len; i += 1) result[i] = generator.next()\<close>,
  entered with \<open>i = 0\<close> and \<open>result = []\<close>. A throwing \<open>next\<close> leaves the loop. The
  length \<open>len\<close> takes part in no arithmetic: it is only compared with the counter.
\<close>

function list_loop ::
  "('s, 'a) Generator \<Rightarrow> real \<Rightarrow> nat \<Rightarrow> 'a js list \<Rightarrow> ('s, 'a js list) Source" where
  "list_loop generator len i result s =
     (if real i < len then
        (case next_gen generator () s of
           (Inl e, s') \<Rightarrow> (Inl e, s')
         | (Inr v, s') \<Rightarrow> list_loop generator len (i + 1) (js_store result i v) s')
      else (Inr result, s))"
  by pat_completeness auto
termination
  apply (relation "measure (\<lambda>(generator, len, i, result, s). nat \<lceil>len\<rceil> - i)")
   apply simp
  apply simp
  apply (subgoal_tac "i < nat \<lceil>len\<rceil>")
   apply linarith
  apply (simp add: zless_nat_eq_int_zless less_ceiling_iff)
  done

definition list_gen :: "real \<Rightarrow> ('s, 'a) Generator \<Rightarrow> ('s, 'a js list) Generator" where
  "list_gen len generator = generate (\<lambda>s. list_loop generator len 0 [] s)"

subsection \<open>The host's conversion of a number to a string\<close>

text \<open>
  The library never prints a number, its users and its tests do (\<open>x + ""\<close>). The
  conversion is the host's, \<open>Number::toString\<close> with radix 10 of ECMA-262, and is
  modelled from that definition. \<open>digits10 n\<close> is the decimal representation of the
  natural number \<open>n\<close>.
\<close>

definition digit_char :: "nat \<Rightarrow> char" where
  "digit_char d = ''0123456789'' ! d"

fun digits10 :: "nat \<Rightarrow> string" where
  "digits10 n = (if n < 10 then [digit_char n] else digits10 (n div 10) @ [digit_char (n mod 10)])"

text \<open>
  ECMA-262 takes integers \<open>n\<close>, \<open>k\<close> and \<open>s\<close> with \<open>k \<ge> 1\<close>,
  \<open>10 ^ (k - 1) \<le> s < 10 ^ k\<close>, the Number value for \<open>s * 10 ^ (n - k)\<close> being \<open>x\<close>, and
  \<open>k\<close> as small as possible; where several \<open>s\<close> qualify it leaves the choice open,
  so the conversion is a relation.
\<close>

definition digits_of :: "real \<Rightarrow> int \<Rightarrow> nat \<Rightarrow> nat \<Rightarrow> bool" where
  "digits_of x n k s \<longleftrightarrow>
     1 \<le> k \<and> 10 ^ (k - 1) \<le> s \<and> s < 10 ^ k \<and> round64 (real s * 10 powi (n - int k)) = Fin x"

definition shortest_digits :: "real \<Rightarrow> int \<Rightarrow> nat \<Rightarrow> nat \<Rightarrow> bool" where
  "shortest_digits x n k s \<longleftrightarrow>
     digits_of x n k s \<and> (\<forall>n' k' s'. digits_of x n' k' s' \<longrightarrow> k \<le> k')"

text \<open>
  The string for \<open>n\<close>, \<open>k\<close> and \<open>s\<close>: for \<open>- 5 \<le> n \<le> 21\<close> the \<open>k\<close> digits of
  \<open>s\<close> followed by \<open>n - k\<close> zeros (\<open>k \<le> n\<close>), or with a decimal point after the first
  \<open>n\<close> digits (\<open>0 < n < k\<close>), or \<open>0.\<close>, \<open>- n\<close> zeros and the digits (\<open>n \<le> 0\<close>);
  otherwise the exponential form, with the exponent \<open>n - 1\<close>.
\<close>

definition render :: "int \<Rightarrow> nat \<Rightarrow> nat \<Rightarrow> string" where
  "render n k s =
     (let ds = digits10 s in
      if - 5 \<le> n \<and> n \<le> 21 then
        (if int k \<le> n then ds @ replicate (nat (n - int k)) CHR ''0''
         else if 0 < n then take (nat n) ds @ ''.'' @ drop (nat n) ds
         else ''0.'' @ replicate (nat (- n)) CHR ''0'' @ ds)
      else
        (let e = digits10 (nat \<bar>n - 1\<bar>); c = (if n < 0 then ''-'' else ''+'') in
         if k = 1 then ds @ ''e'' @ c @ e
         else take 1 ds @ ''.'' @ drop 1 ds @ ''e'' @ c @ e))"

text \<open>
  \<open>number_to_string x str\<close>: \<open>str\<close> is a string the conversion may return for \<open>x\<close>.
\<close>

definition number_to_string :: "number \<Rightarrow> string \<Rightarrow> bool" where
  "number_to_string x str =
     (case x of
        NaN \<Rightarrow> str = ''NaN''
      | PInf \<Rightarrow> str = ''Infinity''
      | NInf \<Rightarrow> str = ''-Infinity''
      | Fin r \<Rightarrow>
          if r = 0 then str = ''0''
          else if r < 0 then (\<exists>n k s. shortest_digits (- r) n k s \<and> str = ''-'' @ render n k s)
          else (\<exists>n k s. shortest_digits r n k s \<and> str = render n k s))"

subsection \<open>The specification's words, as definitions to compare the code with\<close>

text \<open>
  The specification describes the list \<open>weighted\<close> scans as the parallel list of
  (value, cumulative weight so far, inclusive) pairs, in the order supplied: entry \<open>i\<close>
  carries the value of candidate \<open>i\<close> and the running total of the weights of the
  candidates \<open>0 .. i\<close>, added one after the other from zero.
\<close>

definition running_total :: "number list \<Rightarrow> number" where
  "running_total ws = foldl js_add (Fin 0) ws"

definition cumulative_weights :: "('a \<times> number) list \<Rightarrow> ('a \<times> number) list" where
  "cumulative_weights xs =
     map (\<lambda>i. (fst (xs ! i), running_total (map snd (take (Suc i) xs)))) [0..<length xs]"

text \<open>
  The specification describes \<open>list\<close> as calling \<open>gen.next()\<close> exactly \<open>n\<close> times in
  ascending order and collecting the results in that order: \<open>call_n_times n src\<close> calls
  \<open>src\<close> once, then \<open>n - 1\<close> more times from the state the first call left, and puts
  the first result in front. A call that throws ends the sequence with its error.
\<close>

fun call_n_times :: "nat \<Rightarrow> ('s, 'a) Source \<Rightarrow> ('s, 'a list) Source" where
  "call_n_times 0 src s = (Inr [], s)"
| "call_n_times (Suc n) src s =
     (case src s of
        (Inl e, s') \<Rightarrow> (Inl e, s')
      | (Inr v, s') \<Rightarrow>
          (case call_n_times n src s' of
             (Inl e, s'') \<Rightarrow> (Inl e, s'')
           | (Inr vs, s'') \<Rightarrow> (Inr (v # vs), s'')))"

text \<open>
  The recursive equations of the loops are unfolded by hand in the proofs below.
\<close>

declare continiousSum.simps [simp del] getByWeight.simps [simp del] list_loop.simps [simp del]
  digits10.simps [simp del]

section \<open>Rounding to binary64: the facts the proofs use\<close>

text \<open>
  The exponent brackets its argument; rounding to the nearest integer is monotone and
  leaves integers alone; rounding to binary64 is monotone on the non-negative reals,
  leaves its own results (in particular the integers up to \<open>2 ^ 53\<close>) unchanged, and
  maps a product \<open>n * u\<close> with a double \<open>u < 1\<close> below \<open>n\<close>.
\<close>

lemma expo_bounds:
  assumes "x \<noteq> 0"
  shows "2 powi (expo x) \<le> \<bar>x\<bar>" and "\<bar>x\<bar> < 2 powi (expo x + 1)"
proof -
  let ?a = "\<bar>x\<bar>"
  from assms have pos: "0 < ?a"
    by simp
  have "2 powi (expo x) \<le> ?a \<and> ?a < 2 powi (expo x + 1)"
  proof (cases "1 \<le> ?a")
    case True
    let ?n = "\<lfloor>?a\<rfloor>"
    from True have n: "0 < ?n"
      by linarith
    then have b1: "1 \<le> bitlen ?n"
      by (simp add: bitlen_alt_def)
    from bitlen_bounds [OF n] have lo: "2 ^ nat (bitlen ?n - 1) \<le> ?n" and hi: "?n < 2 ^ nat (bitlen ?n)"
      by simp_all
    have e: "expo x = bitlen ?n - 1"
      using True by (simp add: expo_def)
    have "(2 :: real) powi (expo x) = 2 ^ nat (bitlen ?n - 1)"
      using b1 e by (simp add: power_int_nonneg_exp)
    also have "\<dots> = of_int (2 ^ nat (bitlen ?n - 1))"
      by simp
    also have "\<dots> \<le> of_int ?n"
      using lo by (simp only: of_int_le_iff)
    also have "\<dots> \<le> ?a"
      by simp
    finally have A: "2 powi (expo x) \<le> ?a" .
    from hi have "?n + 1 \<le> 2 ^ nat (bitlen ?n)"
      by simp
    then have "of_int (?n + 1) \<le> (of_int (2 ^ nat (bitlen ?n)) :: real)"
      by (simp only: of_int_le_iff)
    then have "real_of_int ?n + 1 \<le> 2 ^ nat (bitlen ?n)"
      by simp
    moreover have "?a < real_of_int ?n + 1"
      by linarith
    ultimately have "?a < 2 ^ nat (bitlen ?n)"
      by linarith
    also have "\<dots> = 2 powi (expo x + 1)"
      using b1 e by (simp add: power_int_nonneg_exp)
    finally show ?thesis
      using A by simp
  next
    case False
    let ?c = "\<lceil>1 / ?a\<rceil>"
    let ?m = "?c - 1"
    from False pos have inv: "1 < 1 / ?a"
      by (simp add: field_simps)
    then have m: "0 < ?m"
      by linarith
    then have b1: "1 \<le> bitlen ?m"
      by (simp add: bitlen_alt_def)
    from bitlen_bounds [OF m] have lo: "2 ^ nat (bitlen ?m - 1) \<le> ?m" and hi: "?m < 2 ^ nat (bitlen ?m)"
      by simp_all
    have e: "expo x = - bitlen ?m"
      using False by (simp add: expo_def)
    have "1 / ?a \<le> of_int ?c"
      by simp
    also have "of_int ?c \<le> (of_int (2 ^ nat (bitlen ?m)) :: real)"
    proof -
      from hi have "?c \<le> 2 ^ nat (bitlen ?m)"
        by linarith
      then show ?thesis
        by (simp only: of_int_le_iff)
    qed
    also have "\<dots> = 2 ^ nat (bitlen ?m)"
      by simp
    finally have "1 / ?a \<le> 2 ^ nat (bitlen ?m)" .
    then have "1 / 2 ^ nat (bitlen ?m) \<le> ?a"
      using pos by (simp add: field_simps)
    moreover have "(2 :: real) powi (expo x) = 1 / 2 ^ nat (bitlen ?m)"
      using b1 e by (simp add: power_int_minus_divide power_int_nonneg_exp)
    ultimately have A: "2 powi (expo x) \<le> ?a"
      by simp
    have "(of_int (2 ^ nat (bitlen ?m - 1)) :: real) \<le> of_int ?m"
      using lo by (simp only: of_int_le_iff)
    also have "of_int ?m < 1 / ?a"
      by linarith
    finally have "2 ^ nat (bitlen ?m - 1) < 1 / ?a"
      by simp
    then have "?a < 1 / 2 ^ nat (bitlen ?m - 1)"
      using pos by (simp add: field_simps)
    moreover have "(2 :: real) powi (expo x + 1) = 1 / 2 ^ nat (bitlen ?m - 1)"
    proof -
      have "expo x + 1 = - (bitlen ?m - 1)"
        using e by simp
      then have "(2 :: real) powi (expo x + 1) = 2 powi (- (bitlen ?m - 1))"
        by simp
      also have "\<dots> = 1 / 2 powi (bitlen ?m - 1)"
        by (rule power_int_minus_divide)
      also have "\<dots> = 1 / 2 ^ nat (bitlen ?m - 1)"
        using b1 by (simp add: power_int_nonneg_exp)
      finally show ?thesis .
    qed
    ultimately show ?thesis
      using A by simp
  qed
  then show "2 powi (expo x) \<le> \<bar>x\<bar>" and "\<bar>x\<bar> < 2 powi (expo x + 1)"
    by simp_all
qed

lemma expo_eqI:
  assumes "x \<noteq> 0" "2 powi e \<le> \<bar>x\<bar>" "\<bar>x\<bar> < 2 powi (e + 1)"
  shows "expo x = e"
proof (rule antisym)
  show "expo x \<le> e"
  proof (rule ccontr)
    assume "\<not> expo x \<le> e"
    then have "e + 1 \<le> expo x"
      by simp
    then have "(2 :: real) powi (e + 1) \<le> 2 powi (expo x)"
      by (intro power_int_increasing) simp_all
    with expo_bounds(1) [OF assms(1)] assms(3) show False
      by linarith
  qed
  show "e \<le> expo x"
  proof (rule ccontr)
    assume "\<not> e \<le> expo x"
    then have "expo x + 1 \<le> e"
      by simp
    then have "(2 :: real) powi (expo x + 1) \<le> 2 powi e"
      by (intro power_int_increasing) simp_all
    with expo_bounds(2) [OF assms(1)] assms(2) show False
      by linarith
  qed
qed

lemma expo_mono:
  assumes "0 < x" "x \<le> y"
  shows "expo x \<le> expo y"
proof (rule ccontr)
  assume "\<not> expo x \<le> expo y"
  then have "expo y + 1 \<le> expo x"
    by simp
  then have "(2 :: real) powi (expo y + 1) \<le> 2 powi (expo x)"
    by (intro power_int_increasing) simp_all
  moreover have "2 powi (expo x) \<le> x"
    using expo_bounds(1) [of x] assms by simp
  moreover have "y < 2 powi (expo y + 1)"
    using expo_bounds(2) [of y] assms by simp
  ultimately show False
    using assms by linarith
qed

lemma rhe_of_int: "rhe (of_int k) = k"
  by (simp add: rhe_def)

lemma rhe_floor: "\<lfloor>m\<rfloor> \<le> rhe m" and rhe_floor1: "rhe m \<le> \<lfloor>m\<rfloor> + 1"
  by (simp_all add: rhe_def Let_def)

lemma rhe_mono:
  assumes "m \<le> m'"
  shows "rhe m \<le> rhe m'"
proof (cases "\<lfloor>m\<rfloor> = \<lfloor>m'\<rfloor>")
  case True
  with assms show ?thesis
    by (auto simp: rhe_def Let_def)
next
  case False
  with assms have "\<lfloor>m\<rfloor> + 1 \<le> \<lfloor>m'\<rfloor>"
    using floor_mono [OF assms] by linarith
  with rhe_floor1 [of m] rhe_floor [of m'] show ?thesis
    by linarith
qed

lemma rhe_le_int: "m \<le> of_int k \<Longrightarrow> rhe m \<le> k"
  using rhe_mono [of m "of_int k"] by (simp add: rhe_of_int)

lemma int_le_rhe: "of_int k \<le> m \<Longrightarrow> k \<le> rhe m"
  using rhe_mono [of "of_int k" m] by (simp add: rhe_of_int)

lemma powi2_add: "(2 :: real) powi (a + b) = 2 powi a * 2 powi b"
  by (rule power_int_add) simp

lemma quantum_pos: "0 < quantum x"
  by (simp add: quantum_def)

lemma quantum_shift: "2 ^ 53 * quantum x = 2 powi (max (expo x) (- 1022) + 1)"
proof -
  have "max (expo x) (- 1022) + 1 = (max (expo x) (- 1022) - 52) + 53"
    by simp
  then have "(2 :: real) powi (max (expo x) (- 1022) + 1) = 2 powi ((max (expo x) (- 1022) - 52) + 53)"
    by (simp only:)
  also have "\<dots> = 2 powi (max (expo x) (- 1022) - 52) * 2 powi 53"
    by (rule powi2_add)
  also have "(2 :: real) powi 53 = 2 ^ 53"
    by (rule power_int_numeral)
  finally show ?thesis
    by (simp only: quantum_def mult.commute)
qed

lemma quantum_shift52: "2 ^ 52 * quantum x = 2 powi (max (expo x) (- 1022))"
proof -
  have "max (expo x) (- 1022) = (max (expo x) (- 1022) - 52) + 52"
    by simp
  then have "(2 :: real) powi (max (expo x) (- 1022)) = 2 powi ((max (expo x) (- 1022) - 52) + 52)"
    by (simp only:)
  also have "\<dots> = 2 powi (max (expo x) (- 1022) - 52) * 2 powi 52"
    by (rule powi2_add)
  also have "(2 :: real) powi 52 = 2 ^ 52"
    by (rule power_int_numeral)
  finally show ?thesis
    by (simp only: quantum_def mult.commute)
qed

lemma powi2_less_cancel: "(2 :: real) powi a < 2 powi b \<Longrightarrow> a < b"
proof (rule ccontr)
  assume lt: "(2 :: real) powi a < 2 powi b" and "\<not> a < b"
  then have "b \<le> a"
    by simp
  then have "(2 :: real) powi b \<le> 2 powi a"
    by (intro power_int_increasing) simp_all
  with lt show False
    by simp
qed

lemma expo_pos_bounds:
  assumes "0 < x"
  shows "2 powi (expo x) \<le> x" and "x < 2 powi (expo x + 1)"
  using expo_bounds [of x] assms by simp_all

lemma expo_pos_eqI: "0 < x \<Longrightarrow> 2 powi e \<le> x \<Longrightarrow> x < 2 powi (e + 1) \<Longrightarrow> expo x = e"
  using expo_eqI [of x e] by simp

lemma quotient_le: "0 < q \<Longrightarrow> x \<le> c * q \<Longrightarrow> x / q \<le> (c :: real)"
  by (simp add: pos_divide_le_eq)

lemma quotient_less: "0 < q \<Longrightarrow> x < c * q \<Longrightarrow> x / q < (c :: real)"
  by (simp add: pos_divide_less_eq)

lemma quotient_ge: "0 < q \<Longrightarrow> c * q \<le> x \<Longrightarrow> (c :: real) \<le> x / q"
  by (simp add: pos_le_divide_eq)

lemma below_quantum:
  assumes "0 < x"
  shows "x / quantum x < 2 ^ 53"
proof -
  have "x < 2 powi (expo x + 1)"
    using assms by (rule expo_pos_bounds)
  also have "\<dots> \<le> 2 powi (max (expo x) (- 1022) + 1)"
    by (intro power_int_increasing) simp_all
  also have "\<dots> = 2 ^ 53 * quantum x"
    by (simp only: quantum_shift)
  finally show ?thesis
    using quantum_pos by (intro quotient_less)
qed

lemma above_quantum:
  assumes "0 < x" "- 1022 \<le> expo x"
  shows "2 ^ 52 \<le> x / quantum x"
proof -
  have "max (expo x) (- 1022) = expo x"
    using assms(2) by simp
  then have "2 ^ 52 * quantum x = 2 powi (expo x)"
    by (simp only: quantum_shift52)
  also have "\<dots> \<le> x"
    using assms(1) by (rule expo_pos_bounds)
  finally show ?thesis
    using quantum_pos by (intro quotient_ge)
qed

lemma rhe_quotient_bounds:
  assumes "0 < x"
  shows "0 \<le> rhe (x / quantum x)" and "rhe (x / quantum x) \<le> 2 ^ 53"
proof -
  have "0 \<le> x / quantum x"
    using assms quantum_pos [of x] by simp
  then show "0 \<le> rhe (x / quantum x)"
    using int_le_rhe [of 0 "x / quantum x"] by simp
  have "x / quantum x \<le> 2 ^ 53"
    using below_quantum [OF assms] by (rule less_imp_le)
  also have "(2 :: real) ^ 53 = of_int (2 ^ 53)"
    by simp
  finally show "rhe (x / quantum x) \<le> 2 ^ 53"
    by (rule rhe_le_int)
qed

lemma round64_pos:
  assumes "0 < x"
  shows "round64 x =
           (if 2 ^ 1024 \<le> of_int (rhe (x / quantum x)) * quantum x then PInf
            else Fin (of_int (rhe (x / quantum x)) * quantum x))"
proof -
  have "0 \<le> of_int (rhe (x / quantum x)) * quantum x"
    using rhe_quotient_bounds(1) [OF assms] quantum_pos [of x] by simp
  moreover have "- ((2 :: real) ^ 1024) < 0"
    by simp
  ultimately have "\<not> of_int (rhe (x / quantum x)) * quantum x \<le> - (2 ^ 1024)"
    by linarith
  with assms show ?thesis
    by (simp add: round64_def Let_def)
qed

text \<open>Multiples of a power of two with at most 53 bits are doubles.\<close>

lemma grid_double_lt:
  assumes "0 < k" "k < 2 ^ 53" "- 1074 \<le> j" "of_int k * 2 powi j < (2 :: real) ^ 1024"
  shows "round64 (of_int k * 2 powi j) = Fin (of_int k * 2 powi j)"
proof -
  let ?y = "of_int k * 2 powi j :: real"
  let ?i = "max (expo ?y) (- 1022) - 52"
  from assms(1) have pos: "0 < ?y"
    by simp
  have "2 powi (expo ?y) \<le> ?y"
    using pos by (rule expo_pos_bounds)
  also have "?y < 2 ^ 53 * 2 powi j"
  proof -
    from assms(2) have "(of_int k :: real) < of_int (2 ^ 53)"
      by (simp only: of_int_less_iff)
    then show ?thesis
      by simp
  qed
  also have "\<dots> = 2 powi (j + 53)"
    by (subst power_int_add) simp_all
  finally have "expo ?y < j + 53"
    by (rule powi2_less_cancel)
  with assms(3) have i: "?i \<le> j"
    by simp
  have "j = ?i + (j - ?i)"
    by simp
  then have "(2 :: real) powi j = 2 powi (?i + (j - ?i))"
    by (simp only:)
  also have "\<dots> = 2 powi ?i * 2 powi (j - ?i)"
    by (rule powi2_add)
  also have "(2 :: real) powi (j - ?i) = 2 ^ nat (j - ?i)"
    using i by (intro power_int_nonneg_exp) simp
  also have "2 powi ?i = quantum ?y"
    by (simp only: quantum_def)
  finally have split: "(2 :: real) powi j = quantum ?y * 2 ^ nat (j - ?i)" .
  have "?y = of_int k * (quantum ?y * 2 ^ nat (j - ?i))"
    by (rule arg_cong [where f = "\<lambda>z. of_int k * z", OF split])
  also have "\<dots> = of_int (k * 2 ^ nat (j - ?i)) * quantum ?y"
    by (simp only: of_int_mult of_int_power of_int_numeral ac_simps)
  finally have "?y = of_int (k * 2 ^ nat (j - ?i)) * quantum ?y" .
  then have quot: "?y / quantum ?y = of_int (k * 2 ^ nat (j - ?i))"
    using quantum_pos [of ?y] by (metis less_irrefl nonzero_mult_div_cancel_right)
  have "of_int (rhe (?y / quantum ?y)) * quantum ?y = (?y / quantum ?y) * quantum ?y"
    by (simp only: quot rhe_of_int)
  also have "\<dots> = ?y"
    using quantum_pos [of ?y] by simp
  finally show ?thesis
    using pos assms(4) by (simp add: round64_pos)
qed

lemma grid_double:
  assumes "0 \<le> k" "k \<le> 2 ^ 53" "- 1074 \<le> j" "of_int k * 2 powi j < (2 :: real) ^ 1024"
  shows "round64 (of_int k * 2 powi j) = Fin (of_int k * 2 powi j)"
proof -
  consider "k = 0" | "0 < k" "k < 2 ^ 53" | "k = 2 ^ 53"
    using assms(1,2) by linarith
  then show ?thesis
  proof cases
    case 1
    then show ?thesis
      by (simp add: round64_def)
  next
    case 2
    then show ?thesis
      using assms(3,4) by (rule grid_double_lt)
  next
    case 3
    have eq: "of_int k * 2 powi j = (of_int (2 ^ 52) * 2 powi (j + 1) :: real)"
      using 3 by (simp add: power_int_add)
    have "round64 (of_int (2 ^ 52) * 2 powi (j + 1)) = Fin (of_int (2 ^ 52) * 2 powi (j + 1))"
      using assms(3,4) unfolding eq by (intro grid_double_lt) simp_all
    then show ?thesis
      by (simp only: eq)
  qed
qed

lemma round64_result:
  assumes "0 \<le> x" "round64 x = Fin y"
  shows "round64 y = Fin y" and "0 \<le> y"
proof -
  have "round64 y = Fin y \<and> 0 \<le> y"
  proof (cases "x = 0")
    case True
    with assms(2) show ?thesis
      by (simp add: round64_def)
  next
    case False
    with assms(1) have pos: "0 < x"
      by simp
    let ?r = "rhe (x / quantum x)"
    from assms(2) have y: "y = of_int ?r * quantum x" and fin: "of_int ?r * quantum x < (2 :: real) ^ 1024"
      by (simp_all add: round64_pos [OF pos] split: if_splits)
    have "round64 (of_int ?r * 2 powi (max (expo x) (- 1022) - 52))
        = Fin (of_int ?r * 2 powi (max (expo x) (- 1022) - 52))"
      using rhe_quotient_bounds [OF pos] fin
      by (intro grid_double) (simp_all add: quantum_def)
    moreover have "0 \<le> y"
      using y rhe_quotient_bounds(1) [OF pos] quantum_pos [of x] by simp
    ultimately show ?thesis
      using y by (simp add: quantum_def)
  qed
  then show "round64 y = Fin y" and "0 \<le> y"
    by simp_all
qed

lemma round64_mono:
  assumes "0 \<le> x" "x \<le> y" "round64 y = Fin b"
  shows "\<exists>a. round64 x = Fin a \<and> 0 \<le> a \<and> a \<le> b"
proof (cases "x = 0")
  case True
  from assms have "0 \<le> b"
    using round64_result(2) [of y b] by simp
  with True show ?thesis
    by (simp add: round64_def)
next
  case False
  with assms have px: "0 < x" and py: "0 < y"
    by simp_all
  let ?rx = "rhe (x / quantum x)" and ?ry = "rhe (y / quantum y)"
  from assms(3) have b: "b = of_int ?ry * quantum y" and fin: "b < 2 ^ 1024"
    by (simp_all add: round64_pos [OF py] split: if_splits)
  have a0: "0 \<le> of_int ?rx * quantum x"
    using rhe_quotient_bounds(1) [OF px] quantum_pos [of x] by simp
  have "of_int ?rx * quantum x \<le> b"
  proof (cases "max (expo x) (- 1022) = max (expo y) (- 1022)")
    case True
    then have q: "quantum x = quantum y"
      by (simp add: quantum_def)
    have "x / quantum y \<le> y / quantum y"
      using assms(2) quantum_pos [of y] by (simp add: divide_right_mono)
    then have "?rx \<le> ?ry"
      unfolding q by (rule rhe_mono)
    then have "(of_int ?rx :: real) \<le> of_int ?ry"
      by (simp only: of_int_le_iff)
    then show ?thesis
      unfolding b q using quantum_pos [of y] by (simp add: mult_right_mono)
  next
    case False
    moreover have "expo x \<le> expo y"
      using px assms(2) by (rule expo_mono)
    ultimately have lt: "max (expo x) (- 1022) + 1 \<le> max (expo y) (- 1022)"
      and unclamped: "- 1022 \<le> expo y"
      by linarith+
    have "(of_int ?rx :: real) \<le> of_int (2 ^ 53)"
      using rhe_quotient_bounds(2) [OF px] by (simp only: of_int_le_iff)
    then have "of_int ?rx * quantum x \<le> 2 ^ 53 * quantum x"
      using quantum_pos [of x] by (simp add: mult_right_mono)
    also have "\<dots> = 2 powi (max (expo x) (- 1022) + 1)"
      by (rule quantum_shift)
    also have "\<dots> \<le> 2 powi (max (expo y) (- 1022))"
      using lt by (intro power_int_increasing) simp_all
    also have "\<dots> = 2 ^ 52 * quantum y"
      by (simp only: quantum_shift52)
    also have "\<dots> \<le> of_int ?ry * quantum y"
    proof -
      have "of_int (2 ^ 52) \<le> y / quantum y"
        using above_quantum [OF py unclamped] by simp
      then have "2 ^ 52 \<le> ?ry"
        by (rule int_le_rhe)
      then have "(of_int (2 ^ 52) :: real) \<le> of_int ?ry"
        by (simp only: of_int_le_iff)
      then show ?thesis
        using quantum_pos [of y] by (simp add: mult_right_mono)
    qed
    finally show ?thesis
      by (simp only: b)
  qed
  with a0 fin show ?thesis
    by (simp add: round64_pos [OF px])
qed

lemma rhe_eq:
  assumes "of_int k - 1 / 2 < m" "m < of_int k + 1 / 2"
  shows "rhe m = k"
proof (cases "of_int k \<le> m")
  case True
  with assms(2) have "\<lfloor>m\<rfloor> = k"
    by (intro floor_unique) simp_all
  with assms(2) show ?thesis
    by (simp add: rhe_def Let_def)
next
  case False
  with assms(1) have "\<lfloor>m\<rfloor> = k - 1"
    by (intro floor_unique) simp_all
  with assms(1) show ?thesis
    by (simp add: rhe_def Let_def)
qed

lemma round64_of_int:
  assumes "0 \<le> k" "k \<le> 2 ^ 53"
  shows "round64 (of_int k) = Fin (of_int k)"
proof -
  have "(of_int k :: real) \<le> of_int (2 ^ 53)"
    using assms(2) by (simp only: of_int_le_iff)
  also have "\<dots> < 2 ^ 1024"
    by simp
  finally have "of_int k * 2 powi 0 < (2 :: real) ^ 1024"
    by simp
  with assms have "round64 (of_int k * 2 powi 0) = Fin (of_int k * 2 powi 0)"
    by (intro grid_double) simp_all
  then show ?thesis
    by simp
qed

lemma round64_real_nat:
  assumes "n \<le> 2 ^ 53"
  shows "round64 (real n) = Fin (real n)"
proof -
  from assms have "int n \<le> 2 ^ 53"
    by (metis of_nat_le_iff of_nat_numeral of_nat_power)
  then have "round64 (of_int (int n)) = Fin (of_int (int n))"
    by (intro round64_of_int) simp_all
  then show ?thesis
    by simp
qed

lemma double_below_one:
  assumes "round64 u = Fin u" "u < 1"
  shows "u \<le> 1 - 1 / 2 ^ 53"
proof (rule ccontr)
  assume "\<not> u \<le> 1 - 1 / 2 ^ 53"
  then have lo: "1 - 1 / 2 ^ 53 < u"
    by simp
  then have pos: "0 < u"
    by (smt (verit) divide_le_eq_1_pos one_le_power zero_less_power)
  have half: "1 / 2 \<le> u"
  proof -
    have "(1 :: real) / 2 ^ 53 \<le> 1 / 2 ^ 1"
      by (intro divide_left_mono power_increasing) simp_all
    with lo show ?thesis
      by simp
  qed
  have "expo u = - 1"
    using pos half assms(2) by (intro expo_pos_eqI) (simp_all add: power_int_minus_divide)
  then have q: "quantum u = 1 / 2 ^ 53"
    by (simp add: quantum_def power_int_minus_divide)
  let ?r = "rhe (u / quantum u)"
  from assms(1) have "u = of_int ?r * quantum u"
    by (simp add: round64_pos [OF pos] split: if_splits)
  then have u: "u = of_int ?r / 2 ^ 53"
    by (simp only: q) simp
  have "of_int ?r < (2 :: real) ^ 53"
  proof -
    from assms(2) u have "of_int ?r / 2 ^ 53 < (1 :: real)"
      by simp
    then show ?thesis
      by (simp only: divide_less_eq_1_pos zero_less_power zero_less_numeral)
  qed
  then have "of_int ?r < (of_int (2 ^ 53) :: real)"
    by simp
  then have r1: "?r < 2 ^ 53"
    by (simp only: of_int_less_iff)
  have "(2 :: real) ^ 53 - 1 < of_int ?r"
  proof -
    from lo u have "1 - 1 / 2 ^ 53 < of_int ?r / (2 :: real) ^ 53"
      by simp
    then have "(1 - 1 / 2 ^ 53) * 2 ^ 53 < of_int ?r / (2 :: real) ^ 53 * 2 ^ 53"
      by (intro mult_strict_right_mono) simp_all
    then show ?thesis
      by (simp add: algebra_simps)
  qed
  then have "(of_int (2 ^ 53 - 1) :: real) < of_int ?r"
    by simp
  then have "2 ^ 53 - 1 < ?r"
    by (simp only: of_int_less_iff)
  with r1 show False
    by linarith
qed


lemma product_below:
  assumes "1 \<le> n" "n \<le> 2 ^ 53"
  shows "\<exists>p. round64 (real n * (1 - 1 / 2 ^ 53)) = Fin p \<and> 0 \<le> p \<and> p < real n"
proof -
  let ?y = "real n"
  let ?v = "?y * (1 - 1 / 2 ^ 53)"
  let ?e = "expo ?y"
  from assms(1) have y1: "1 \<le> ?y" and ypos: "0 < ?y"
    by simp_all
  from assms(2) have y53: "?y \<le> 2 ^ 53"
    by (metis of_nat_le_iff of_nat_numeral of_nat_power)
  have lo: "2 powi ?e \<le> ?y" and hi: "?y < 2 powi (?e + 1)"
    using ypos by (rule expo_pos_bounds)+
  have e0: "0 \<le> ?e"
  proof (rule ccontr)
    assume "\<not> 0 \<le> ?e"
    then have "?e + 1 \<le> 0"
      by simp
    then have "(2 :: real) powi (?e + 1) \<le> 2 powi 0"
      by (intro power_int_increasing) simp_all
    with hi y1 show False
      by simp
  qed
  have vlt: "?v < ?y"
    using ypos by (simp add: algebra_simps)
  have vpos: "0 < ?v"
    using ypos by (intro mult_pos_pos) simp_all
  show ?thesis
  proof (cases "?y = 2 powi ?e")
    case True
    have "?e \<le> 53"
    proof (rule ccontr)
      assume "\<not> ?e \<le> 53"
      then have "(54 :: int) \<le> ?e"
        by simp
      then have "(2 :: real) powi 54 \<le> 2 powi ?e"
        by (intro power_int_increasing) simp_all
      with lo y53 show False
        by simp
    qed
    have "?e = (?e - 53) + 53"
      by simp
    then have "(2 :: real) powi ?e = 2 powi ((?e - 53) + 53)"
      by (simp only:)
    also have "\<dots> = 2 powi (?e - 53) * 2 powi 53"
      by (rule powi2_add)
    also have "(2 :: real) powi 53 = 2 ^ 53"
      by (rule power_int_numeral)
    finally have "?v = (2 powi (?e - 53) * 2 ^ 53) * (1 - 1 / 2 ^ 53)"
      using True by (simp only:)
    also have "\<dots> = of_int (2 ^ 53 - 1) * 2 powi (?e - 53)"
      by (simp add: algebra_simps)
    finally have v: "?v = of_int (2 ^ 53 - 1) * 2 powi (?e - 53)" .
    have "?v < 2 ^ 1024"
    proof -
      have "(2 :: real) ^ 53 < 2 ^ 1024"
        by (intro power_strict_increasing) simp_all
      with vlt y53 show ?thesis
        by linarith
    qed
    then have "of_int (2 ^ 53 - 1) * 2 powi (?e - 53) < (2 :: real) ^ 1024"
      by (simp only: v)
    then have "round64 (of_int (2 ^ 53 - 1) * 2 powi (?e - 53))
        = Fin (of_int (2 ^ 53 - 1) * 2 powi (?e - 53))"
      using e0 by (intro grid_double) simp_all
    then have "round64 ?v = Fin ?v"
      by (simp only: v)
    with vlt vpos show ?thesis
      by (intro exI [of _ ?v]) simp
  next
    case False
    with lo have strict: "2 powi ?e < ?y"
      by simp
    have e52: "?e \<le> 52"
    proof (rule ccontr)
      assume "\<not> ?e \<le> 52"
      then have "(53 :: int) \<le> ?e"
        by simp
      then have "(2 :: real) powi 53 \<le> 2 powi ?e"
        by (intro power_int_increasing) simp_all
      with strict y53 show False
        by simp
    qed
    have pow_nat: "(2 :: real) powi ?e = real (2 ^ nat ?e)"
      using e0 by (simp add: power_int_nonneg_exp)
    with strict have "2 ^ nat ?e < n"
      by (simp only: of_nat_less_iff)
    then have "2 ^ nat ?e + 1 \<le> n"
      by simp
    then have "real (2 ^ nat ?e + 1) \<le> ?y"
      by (simp only: of_nat_le_iff)
    then have "real (2 ^ nat ?e) + 1 \<le> ?y"
      by simp
    then have y_gap: "2 powi ?e + 1 \<le> ?y"
      by (simp only: pow_nat)
    have "?y / 2 ^ 53 \<le> 1"
      using y53 by simp
    then have "?y - 1 \<le> ?v"
      by (simp add: algebra_simps)
    with y_gap have vlo: "2 powi ?e \<le> ?v"
      by linarith
    from vlt hi have vhi: "?v < 2 powi (?e + 1)"
      by linarith
    have ev: "expo ?v = ?e"
      using vpos vlo vhi by (rule expo_pos_eqI)
    let ?Q = "quantum ?v"
    have Qpos: "0 < ?Q"
      by (rule quantum_pos)
    have mx: "max (expo ?v) (- 1022) = ?e"
      using ev e0 by simp
    have Q53: "2 ^ 53 * ?Q = 2 powi (?e + 1)"
      using quantum_shift [of ?v] by (simp only: mx)
    have Q52: "2 ^ 52 * ?Q = 2 powi ?e"
      using quantum_shift52 [of ?v] by (simp only: mx)
    let ?Y = "int n * 2 ^ nat (52 - ?e)"
    have Qinv: "?Q * 2 ^ nat (52 - ?e) = 1"
    proof -
      have "?Q = 2 powi (?e - 52)"
        by (simp only: quantum_def mx)
      moreover have "(2 :: real) ^ nat (52 - ?e) = 2 powi (52 - ?e)"
        using e52 by (simp add: power_int_nonneg_exp)
      ultimately have "?Q * 2 ^ nat (52 - ?e) = 2 powi (?e - 52) * 2 powi (52 - ?e)"
        by (simp only:)
      also have "\<dots> = 2 powi ((?e - 52) + (52 - ?e))"
        by (rule powi2_add [symmetric])
      also have "\<dots> = 1"
        by simp
      finally show ?thesis .
    qed
    have yQ: "?y / ?Q = of_int ?Y"
    proof -
      have "of_int ?Y * ?Q = ?y * (?Q * 2 ^ nat (52 - ?e))"
        by (simp add: ac_simps)
      also have "\<dots> = ?y"
        by (simp only: Qinv mult_1_right)
      finally show ?thesis
        using Qpos by (metis less_irrefl nonzero_mult_div_cancel_right)
    qed
    let ?d = "?y / 2 powi (?e + 1)"
    have d1: "?d < 1"
      using hi by (simp add: divide_less_eq)
    have d2: "1 / 2 < ?d"
    proof -
      have "(2 :: real) powi (?e + 1) = 2 powi ?e * 2 powi 1"
        by (rule powi2_add)
      then have "(2 :: real) powi (?e + 1) = 2 * 2 powi ?e"
        by simp
      with strict show ?thesis
        by (simp add: less_divide_eq)
    qed
    have vQ: "?v / ?Q = of_int ?Y - ?d"
    proof -
      have "?v / ?Q = ?y / ?Q - ?y / (2 ^ 53 * ?Q)"
        by (simp add: algebra_simps diff_divide_distrib)
      then show ?thesis
        by (simp only: yQ Q53)
    qed
    have "rhe (?v / ?Q) = ?Y - 1"
    proof (rule rhe_eq)
      show "of_int (?Y - 1) - 1 / 2 < ?v / ?Q"
        using d1 by (simp only: vQ)
      show "?v / ?Q < of_int (?Y - 1) + 1 / 2"
        using d2 by (simp only: vQ)
    qed
    then have r: "of_int (rhe (?v / ?Q)) * ?Q = ?y - ?Q"
    proof -
      assume "rhe (?v / ?Q) = ?Y - 1"
      then have "of_int (rhe (?v / ?Q)) * ?Q = (of_int ?Y - 1) * ?Q"
        by simp
      also have "\<dots> = of_int ?Y * ?Q - ?Q"
        by (simp add: algebra_simps)
      also have "of_int ?Y * ?Q = ?y"
        using yQ Qpos by (metis less_irrefl nonzero_divide_eq_eq)
      finally show ?thesis .
    qed
    have small: "\<not> 2 ^ 1024 \<le> ?y - ?Q"
    proof -
      have "(2 :: real) ^ 53 < 2 ^ 1024"
        by (intro power_strict_increasing) simp_all
      with y53 Qpos show ?thesis
        by linarith
    qed
    have "round64 ?v = Fin (?y - ?Q)"
      using small by (simp only: round64_pos [OF vpos] r if_False)
    moreover have "0 \<le> ?y - ?Q"
    proof -
      have "?Q \<le> 2 ^ 52 * ?Q"
        using Qpos by simp
      with Q52 lo show ?thesis
        by linarith
    qed
    ultimately show ?thesis
      using Qpos by (intro exI [of _ "?y - ?Q"]) simp
  qed
qed

lemma round64_index:
  assumes "1 \<le> n" "n \<le> 2 ^ 53" "round64 u = Fin u" "0 \<le> u" "u < 1"
  shows "\<exists>d. round64 (real n * u) = Fin d \<and> 0 \<le> d \<and> d < real n"
proof -
  from assms(3,5) have "u \<le> 1 - 1 / 2 ^ 53"
    by (rule double_below_one)
  then have "real n * u \<le> real n * (1 - 1 / 2 ^ 53)"
    by (intro mult_left_mono) simp_all
  moreover from assms(4) have "0 \<le> real n * u"
    by simp
  moreover obtain p where p: "round64 (real n * (1 - 1 / 2 ^ 53)) = Fin p" and "p < real n"
    using product_below [OF assms(1,2)] by blast
  ultimately obtain d where "round64 (real n * u) = Fin d" "0 \<le> d" "d \<le> p"
    using round64_mono [of "real n * u" "real n * (1 - 1 / 2 ^ 53)" p] by blast
  with \<open>p < real n\<close> show ?thesis
    by (intro exI [of _ d]) simp
qed

text \<open>The relative error of rounding a normal number is at most \<open>2 ^ - 53\<close>.\<close>

lemma rhe_err: "\<bar>of_int (rhe m) - m\<bar> \<le> 1 / 2"
proof -
  have "of_int \<lfloor>m\<rfloor> \<le> m" "m < of_int \<lfloor>m\<rfloor> + 1"
    by linarith+
  then show ?thesis
    by (auto simp add: rhe_def Let_def)
qed

lemma round64_rel:
  assumes "2 powi (- 1022) \<le> x" "x \<le> 1"
  shows "\<exists>y. round64 x = Fin y \<and> \<bar>y - x\<bar> \<le> x / 2 ^ 53"
proof -
  have "(0 :: real) < 2 powi (- 1022)"
    by simp
  with assms(1) have pos: "0 < x"
    by linarith
  have "2 powi (- 1022) \<le> x"
    by (rule assms(1))
  also have "x < 2 powi (expo x + 1)"
    using pos by (rule expo_pos_bounds)
  finally have "- 1022 < expo x + 1"
    by (rule powi2_less_cancel)
  then have e: "- 1022 \<le> expo x"
    by simp
  then have mx: "max (expo x) (- 1022) = expo x"
    by simp
  let ?q = "quantum x"
  let ?y = "of_int (rhe (x / ?q)) * ?q"
  have q0: "0 < ?q"
    by (rule quantum_pos)
  have "2 ^ 52 * ?q = 2 powi (expo x)"
    using mx by (simp only: quantum_shift52)
  also have "\<dots> \<le> x"
    using pos by (rule expo_pos_bounds)
  finally have qx: "2 ^ 52 * ?q \<le> x" .
  have "\<bar>of_int (rhe (x / ?q)) - x / ?q\<bar> \<le> 1 / 2"
    by (rule rhe_err)
  then have "\<bar>of_int (rhe (x / ?q)) - x / ?q\<bar> * ?q \<le> 1 / 2 * ?q"
    using q0 by (intro mult_right_mono) simp_all
  moreover have "\<bar>of_int (rhe (x / ?q)) - x / ?q\<bar> * ?q = \<bar>?y - x\<bar>"
  proof -
    have "\<bar>of_int (rhe (x / ?q)) - x / ?q\<bar> * ?q = \<bar>(of_int (rhe (x / ?q)) - x / ?q) * ?q\<bar>"
      using q0 by (simp add: abs_mult)
    also have "(of_int (rhe (x / ?q)) - x / ?q) * ?q = ?y - x"
      using q0 by (simp add: algebra_simps)
    finally show ?thesis .
  qed
  ultimately have "\<bar>?y - x\<bar> \<le> 1 / 2 * ?q"
    by simp
  also have "1 / 2 * ?q \<le> x / 2 ^ 53"
    using qx by simp
  finally have err: "\<bar>?y - x\<bar> \<le> x / 2 ^ 53" .
  have "x / 2 ^ 53 \<le> 1"
    using assms(2) pos by (simp add: divide_le_eq)
  with err assms(2) have "?y \<le> 2"
    by linarith
  moreover have "(2 :: real) < 2 ^ 1024"
    by simp
  ultimately have "\<not> 2 ^ 1024 \<le> ?y"
    by linarith
  then have "round64 x = Fin ?y"
    using round64_pos [OF pos] by simp
  with err show ?thesis
    by blast
qed

text \<open>Two reals that differ by a relative \<open>10 ^ - 14\<close> round to different doubles.\<close>

lemma round64_separates:
  assumes "2 powi (- 1022) \<le> a" "b \<le> 1" "a \<le> b * (1 - 1 / 10 ^ 14)"
  shows "round64 a \<noteq> round64 b"
proof
  assume eq: "round64 a = round64 b"
  have "(0 :: real) < 2 powi (- 1022)"
    by simp
  with assms(1) have a0: "0 < a"
    by linarith
  have b0: "0 < b"
  proof (rule ccontr)
    assume "\<not> 0 < b"
    then have "b * (1 - 1 / 10 ^ 14) \<le> 0"
      by (simp add: mult_le_0_iff)
    with assms(3) a0 show False
      by linarith
  qed
  have "b * (1 - 1 / 10 ^ 14) \<le> b"
    using b0 by (simp add: mult_le_cancel_left1)
  with assms(3) have ab: "a \<le> b"
    by linarith
  obtain y where y: "round64 a = Fin y" and ya: "\<bar>y - a\<bar> \<le> a / 2 ^ 53"
    using round64_rel [of a] assms(1,2) ab by auto
  obtain z where z: "round64 b = Fin z" and zb: "\<bar>z - b\<bar> \<le> b / 2 ^ 53"
    using round64_rel [of b] assms(1,2) ab by fastforce
  from eq y z have "y = z"
    by simp
  have "y \<le> a + a / 2 ^ 53"
    using ya by linarith
  also have "\<dots> = a * (1 + 1 / 2 ^ 53)"
    by (simp add: algebra_simps)
  also have "\<dots> \<le> b * (1 - 1 / 10 ^ 14) * (1 + 1 / 2 ^ 53)"
    using assms(3) by (intro mult_right_mono) simp_all
  also have "\<dots> = b * ((1 - 1 / 10 ^ 14) * (1 + 1 / 2 ^ 53))"
    by simp
  also have "\<dots> < b * (1 - 1 / 2 ^ 53)"
    using b0 by (intro mult_strict_left_mono) simp_all
  also have "\<dots> = b - b / 2 ^ 53"
    by (simp add: algebra_simps)
  also have "\<dots> \<le> z"
    using zb by linarith
  finally show False
    using \<open>y = z\<close> by simp
qed

text \<open>Evaluating \<open>round64\<close> at a given input, from its exponent and its rounded quotient.\<close>

lemma round64_evalI:
  assumes "0 < x" "2 powi e \<le> x" "x < 2 powi (e + 1)" "- 1022 \<le> e"
    "of_int k - 1 / 2 < x / 2 powi (e - 52)" "x / 2 powi (e - 52) < of_int k + 1 / 2"
  shows "round64 x =
           (if (2 :: real) ^ 1024 \<le> of_int k * 2 powi (e - 52) then PInf
            else Fin (of_int k * 2 powi (e - 52)))"
proof -
  have "expo x = e"
    using assms(1-3) by (rule expo_pos_eqI)
  with assms(4) have q: "quantum x = 2 powi (e - 52)"
    by (simp add: quantum_def)
  have "rhe (x / 2 powi (e - 52)) = k"
    using assms(5,6) by (rule rhe_eq)
  then show ?thesis
    by (simp only: round64_pos [OF assms(1)] q)
qed

lemma round64_dyadic:
  assumes "0 \<le> k" "k \<le> 2 ^ 53" "m \<le> 1074"
  shows "round64 (of_int k / 2 ^ m) = Fin (of_int k / 2 ^ m)"
proof -
  have eq: "of_int k * 2 powi (- int m) = (of_int k / 2 ^ m :: real)"
    by (simp add: power_int_minus_divide)
  have "(of_int k :: real) \<le> of_int (2 ^ 53)"
    using assms(2) by (simp only: of_int_le_iff)
  moreover have "(2 :: real) ^ 53 < 2 ^ 1024"
    by (intro power_strict_increasing) simp_all
  moreover have "of_int k / 2 ^ m \<le> (of_int k :: real)"
    using assms(1) by (simp add: divide_le_eq mult_le_cancel_left1)
  ultimately have "of_int k * 2 powi (- int m) < (2 :: real) ^ 1024"
    unfolding eq by simp
  then have "round64 (of_int k * 2 powi (- int m)) = Fin (of_int k * 2 powi (- int m))"
    using assms by (intro grid_double) simp_all
  then show ?thesis
    by (simp only: eq)
qed

lemma is_double_below_one: "round64 (1 - 1 / 2 ^ 53) = Fin (1 - 1 / 2 ^ 53)"
proof -
  have "(1 - 1 / 2 ^ 53 :: real) = of_int (2 ^ 53 - 1) / 2 ^ 53"
    by simp
  moreover have "round64 (of_int (2 ^ 53 - 1) / 2 ^ 53) = Fin (of_int (2 ^ 53 - 1) / 2 ^ 53)"
    by (rule round64_dyadic) simp_all
  ultimately show ?thesis
    by (simp only:)
qed

lemma round64_101: "round64 (100 + (1 - 1 / 2 ^ 53)) = Fin 101"
  using round64_evalI [of "100 + (1 - 1 / 2 ^ 53)" 6 7107243161944064]
  by simp

lemma toPrecision_0_int:
  assumes "0 \<le> k" "k \<le> 2 ^ 53"
  shows "toPrecision 0 (Fin (of_int k)) = Fin (of_int k)"
  using round64_of_int [OF assms] round64_of_int [of 1]
  by (simp add: toPrecision_def js_pow10_def Let_def)

section \<open>Calling a generator: basic facts\<close>

lemma source_of_generate: "source_of (generate src) = src"
  by (simp add: generate_def)

lemma next_gen_source: "next_gen g args s = source_of g s"
  by (simp add: next_gen_def)

lemma source_of_map_gen:
  "source_of (map_gen g f) s =
     (case source_of g s of (Inl e, s') \<Rightarrow> (Inl e, s') | (Inr a, s') \<Rightarrow> f a s')"
  by (simp add: map_gen_def generate_def)

lemma source_of_constant_gen: "source_of (constant_gen v) s = (Inr v, s)"
  by (simp add: constant_gen_def generate_def)

lemma source_of_float:
  "source_of (float mn mx source) s =
     (case source s of
        (Inl e, s') \<Rightarrow> (Inl e, s')
      | (Inr u, s') \<Rightarrow> (Inr (js_add mn (js_mul (js_sub mx mn) u)), s'))"
  by (simp add: float_def source_of_map_gen source_of_generate)

lemma source_of_floatWithPrecision:
  "source_of (floatWithPrecision mn mx p source) s =
     (case source s of
        (Inl e, s') \<Rightarrow> (Inl e, s')
      | (Inr u, s') \<Rightarrow> (Inr (toPrecision p (js_add mn (js_mul (js_sub mx mn) u))), s'))"
  by (simp add: floatWithPrecision_def source_of_map_gen source_of_float
      split: prod.split sum.split)

lemma source_of_int_gen:
  "source_of (int_gen mn mx source) s =
     (case source s of
        (Inl e, s') \<Rightarrow> (Inl e, s')
      | (Inr u, s') \<Rightarrow>
          (Inr (toPrecision 0 (js_add mn (js_mul (js_sub (js_add mx (Fin 1)) mn) u))), s'))"
  by (simp add: int_gen_def source_of_floatWithPrecision)

lemma map_gen_identity: "map_gen g (\<lambda>a s. (Inr a, s)) = g"
proof (cases g)
  case (Generator src)
  have "(\<lambda>s. case src s of (Inl e, s') \<Rightarrow> (Inl e, s') | (Inr a, s') \<Rightarrow> (Inr a, s')) = src"
    by (rule ext) (simp split: prod.split sum.split)
  with Generator show ?thesis
    by (simp add: map_gen_def generate_def)
qed

lemma map_gen_map_gen:
  "map_gen (map_gen g f) h =
     map_gen g (\<lambda>x s. case f x s of (Inl e, s') \<Rightarrow> (Inl e, s') | (Inr y, s') \<Rightarrow> h y s')"
proof -
  have "(\<lambda>s. case (case source_of g s of (Inl e, s') \<Rightarrow> (Inl e, s') | (Inr a, s') \<Rightarrow> f a s') of
               (Inl e, s') \<Rightarrow> (Inl e, s') | (Inr a, s') \<Rightarrow> h a s')
        = (\<lambda>s. case source_of g s of (Inl e, s') \<Rightarrow> (Inl e, s')
                | (Inr a, s') \<Rightarrow> (case f a s' of (Inl e, s'') \<Rightarrow> (Inl e, s'')
                                   | (Inr y, s'') \<Rightarrow> h y s''))"
    by (rule ext) (simp split: prod.split sum.split)
  then show ?thesis
    by (simp add: map_gen_def generate_def)
qed

lemma map_gen_map_gen_pure:
  "map_gen (map_gen g (\<lambda>a s. (p a, s))) (\<lambda>b s. (q b, s)) =
     map_gen g (\<lambda>x s. (case p x of Inl e \<Rightarrow> Inl e | Inr y \<Rightarrow> q y, s))"
proof -
  have "(\<lambda>x s. case (p x, s) of (Inl e, s') \<Rightarrow> (Inl e, s') | (Inr y, s') \<Rightarrow> (q y, s'))
      = (\<lambda>x s. (case p x of Inl e \<Rightarrow> Inl e | Inr y \<Rightarrow> q y, s))"
    by (intro ext) (simp split: sum.split)
  then have "map_gen g (\<lambda>x s. case (p x, s) of (Inl e, s') \<Rightarrow> (Inl e, s') | (Inr y, s') \<Rightarrow> (q y, s'))
      = map_gen g (\<lambda>x s. (case p x of Inl e \<Rightarrow> Inl e | Inr y \<Rightarrow> q y, s))"
    by (rule arg_cong)
  then show ?thesis
    by (simp only: map_gen_map_gen)
qed

section \<open>The generator engine\<close>

text \<open>
  Claim C1. For every generator \<open>g\<close> and transformer \<open>f\<close>, one call of
  \<open>g.map(f).next()\<close> is \<open>f\<close> applied to the value \<open>g\<close>'s source draws in the same
  call, in the state that draw left (an error of the source is passed on). For a
  transformer without effects, \<open>\<lambda>a s. (p a, s)\<close>, the result is \<open>p\<close> of the drawn value
  and the state is that of the source. The functor laws hold as equalities of
  generators: mapping the identity function gives \<open>g\<close>, and mapping \<open>f\<close> then \<open>h\<close> is
  mapping \<open>x => h(f(x))\<close>, for transformers with effects, for transformers that only
  may throw, and for total ones.
\<close>

theorem map_gen_next_functor_laws:
  "next_gen (map_gen g f) () s =
     (case next_gen g () s of (Inl e, s') \<Rightarrow> (Inl e, s') | (Inr a, s') \<Rightarrow> f a s')
   \<and> next_gen (map_gen g (\<lambda>a s. (p a, s))) () s =
     (case next_gen g () s of (Inl e, s') \<Rightarrow> (Inl e, s') | (Inr a, s') \<Rightarrow> (p a, s'))
   \<and> map_gen g (\<lambda>a s. (Inr a, s)) = g
   \<and> map_gen (map_gen g f) h =
       map_gen g (\<lambda>x s. case f x s of (Inl e, s') \<Rightarrow> (Inl e, s') | (Inr y, s') \<Rightarrow> h y s')
   \<and> map_gen (map_gen g (\<lambda>a s. (p a, s))) (\<lambda>b s. (q b, s)) =
       map_gen g (\<lambda>x s. (case p x of Inl e \<Rightarrow> Inl e | Inr y \<Rightarrow> q y, s))
   \<and> map_gen (map_gen g (\<lambda>x s. (Inr (f' x), s))) (\<lambda>y s. (Inr (h' y), s)) =
       map_gen g (\<lambda>x s. (Inr ((h' \<circ> f') x), s))"
proof (intro conjI)
  show "next_gen (map_gen g f) () s =
     (case next_gen g () s of (Inl e, s') \<Rightarrow> (Inl e, s') | (Inr a, s') \<Rightarrow> f a s')"
    by (simp add: next_gen_source source_of_map_gen)
  show "next_gen (map_gen g (\<lambda>a s. (p a, s))) () s =
     (case next_gen g () s of (Inl e, s') \<Rightarrow> (Inl e, s') | (Inr a, s') \<Rightarrow> (p a, s'))"
    by (simp add: next_gen_source source_of_map_gen)
  show "map_gen g (\<lambda>a s. (Inr a, s)) = g"
    by (rule map_gen_identity)
  show "map_gen (map_gen g f) h =
       map_gen g (\<lambda>x s. case f x s of (Inl e, s') \<Rightarrow> (Inl e, s') | (Inr y, s') \<Rightarrow> h y s')"
    by (rule map_gen_map_gen)
  show "map_gen (map_gen g (\<lambda>a s. (p a, s))) (\<lambda>b s. (q b, s)) =
       map_gen g (\<lambda>x s. (case p x of Inl e \<Rightarrow> Inl e | Inr y \<Rightarrow> q y, s))"
    by (rule map_gen_map_gen_pure)
  show "map_gen (map_gen g (\<lambda>x s. (Inr (f' x), s))) (\<lambda>y s. (Inr (h' y), s)) =
       map_gen g (\<lambda>x s. (Inr ((h' \<circ> f') x), s))"
    using map_gen_map_gen_pure [of g "\<lambda>x. Inr (f' x)" "\<lambda>y. Inr (h' y)"] by simp
qed

theorem map_gen_next_functor_laws_witness:
  "next_gen (map_gen (constant_gen ''X'') (\<lambda>x s. (Inr (x @ ''O''), s))) () (0 :: nat) = (Inr ''XO'', 0)"
  using map_gen_next_functor_laws [THEN conjunct1, of "constant_gen ''X''" "\<lambda>x s. (Inr (x @ ''O''), s)" "0 :: nat"]
  by (simp add: next_gen_source source_of_constant_gen)

text \<open>
  Claim C2. One call of \<open>g.then(f).next()\<close> calls \<open>g\<close>'s source first; when that
  returns \<open>a\<close> in state \<open>s'\<close>, the result is that of \<open>f(a).next()\<close> run from
  \<open>s'\<close>, and an error of \<open>g\<close>'s source is passed on without calling \<open>f\<close>.
\<close>

theorem then_gen_next:
  "next_gen (then_gen g f) () s =
     (case next_gen g () s of (Inl e, s') \<Rightarrow> (Inl e, s') | (Inr a, s') \<Rightarrow> next_gen (f a) () s')
   \<and> (next_gen g () s = (Inr a, s') \<longrightarrow> next_gen (then_gen g f) () s = next_gen (f a) () s')"
  by (simp add: then_gen_def generate_def next_gen_def)

theorem then_gen_next_witness:
  "next_gen (generate (\<lambda>n :: nat. (Inr n, Suc n))) () 3 = (Inr 3, 4)
   \<and> next_gen (then_gen (generate (\<lambda>n :: nat. (Inr n, Suc n)))
                (\<lambda>a. generate (\<lambda>n. (Inr (a + 10 * n), Suc n)))) () 3 = (Inr 43, 5)"
  using then_gen_next [of "generate (\<lambda>n :: nat. (Inr n, Suc n))"
      "\<lambda>a. generate (\<lambda>n. (Inr (a + 10 * n), Suc n))" 3 3 4]
  by (simp add: next_gen_source source_of_generate)

text \<open>
  Claim C10. \<open>next\<close> ignores its arguments: called with any argument \<open>t\<close> it is the
  same function of the state as called with none, namely the call of the source. The
  documented use \<open>numbers.next(x => x + " Bottles of beer")\<close> therefore returns the
  drawn number itself.
\<close>

theorem next_gen_ignores_arguments:
  "next_gen g t = next_gen g () \<and> next_gen g t s = source_of g s"
  by (simp add: next_gen_def)

theorem next_gen_ignores_arguments_witness:
  "next_gen (int_gen (Fin 1) (Fin 99) (\<lambda>n :: nat. (Inr (Fin (43 / 64)), Suc n)))
      (\<lambda>x :: string. x @ '' Bottles of beer'') 0 = (Inr (Fin 67), 1)
   \<and> next_gen (int_gen (Fin 1) (Fin 99) (\<lambda>n :: nat. (Inr (Fin (43 / 64)), Suc n))) () 0
       = (Inr (Fin 67), 1)"
proof -
  have a1: "js_add (Fin 99) (Fin 1) = Fin 100"
    using round64_of_int [of 100] by simp
  have a2: "js_sub (Fin 100) (Fin 1) = Fin 99"
    using round64_of_int [of 99] by simp
  have a3: "js_mul (Fin 99) (Fin (43 / 64)) = Fin (4257 / 64)"
    using round64_dyadic [of 4257 6] by simp
  have a4: "js_add (Fin 1) (Fin (4257 / 64)) = Fin (4321 / 64)"
    using round64_dyadic [of 4321 6] by simp
  have a5: "toPrecision 0 (Fin (4321 / 64)) = Fin 67"
    using round64_dyadic [of 4321 6] round64_of_int [of 67] round64_of_int [of 1]
    by (simp add: toPrecision_def js_pow10_def)
  have "toPrecision 0 (js_add (Fin 1)
          (js_mul (js_sub (js_add (Fin 99) (Fin 1)) (Fin 1)) (Fin (43 / 64)))) = Fin 67"
    by (simp only: a1 a2 a3 a4 a5)
  then have "source_of (int_gen (Fin 1) (Fin 99) (\<lambda>n :: nat. (Inr (Fin (43 / 64)), Suc n))) 0
      = (Inr (Fin 67), 1)"
    by (simp only: source_of_int_gen prod.case sum.case One_nat_def)
  then show ?thesis
    using next_gen_ignores_arguments [of "int_gen (Fin 1) (Fin 99) (\<lambda>n :: nat. (Inr (Fin (43 / 64)), Suc n))"
      "\<lambda>x :: string. x @ '' Bottles of beer''" 0]
    by (simp add: next_gen_source)
qed

section \<open>Numeric primitives\<close>

lemma round64_pow1024: "round64 (2 ^ 1023 - - (2 ^ 1023)) = PInf"
  using round64_evalI [of "2 ^ 1023 - - (2 ^ 1023)" 1024 "2 ^ 52"]
  by simp

text \<open>
  Claim C7. When the source draws \<open>u\<close>, \<open>float(min, max, source).next()\<close> returns
  \<open>min + (max - min) * u\<close>, each operation rounded. The sample does not always lie
  between \<open>min\<close> and \<open>max\<close>: for \<open>min = - 2 ^ 1023\<close> and \<open>max = 2 ^ 1023\<close> the
  difference \<open>max - min\<close> overflows, and the sample is \<open>Infinity\<close> at the draw
  \<open>0.5\<close> and \<open>NaN\<close> at the draw \<open>0\<close>; neither compares as at most \<open>max\<close>.
\<close>

theorem float_overflow:
  "next_gen (float mn mx source) () s =
     (case source s of
        (Inl e, s') \<Rightarrow> (Inl e, s')
      | (Inr u, s') \<Rightarrow> (Inr (js_add mn (js_mul (js_sub mx mn) u)), s'))
   \<and> next_gen (float (Fin (- (2 ^ 1023))) (Fin (2 ^ 1023))
         (\<lambda>n :: nat. (Inr (Fin (1 / 2)), Suc n))) () 0 = (Inr PInf, 1)
   \<and> next_gen (float (Fin (- (2 ^ 1023))) (Fin (2 ^ 1023))
         (\<lambda>n :: nat. (Inr (Fin 0), Suc n))) () 0 = (Inr NaN, 1)
   \<and> js_le (Fin (- (2 ^ 1023))) (Fin (2 ^ 1023))
   \<and> \<not> js_le PInf (Fin (2 ^ 1023))
   \<and> \<not> js_le NaN (Fin (2 ^ 1023))"
proof (intro conjI)
  show "js_le (Fin (- (2 ^ 1023))) (Fin (2 ^ 1023))"
    by simp
  show "\<not> js_le PInf (Fin (2 ^ 1023))"
    by simp
  show "\<not> js_le NaN (Fin (2 ^ 1023))"
    by simp
  show "next_gen (float mn mx source) () s =
     (case source s of
        (Inl e, s') \<Rightarrow> (Inl e, s')
      | (Inr u, s') \<Rightarrow> (Inr (js_add mn (js_mul (js_sub mx mn) u)), s'))"
    by (simp only: next_gen_source source_of_float)
  have d: "js_sub (Fin (2 ^ 1023)) (Fin (- (2 ^ 1023))) = PInf"
    by (simp only: js_sub.simps round64_pow1024)
  have "js_add (Fin (- (2 ^ 1023))) (js_mul (js_sub (Fin (2 ^ 1023)) (Fin (- (2 ^ 1023)))) (Fin (1 / 2)))
      = PInf"
    by (simp only: d) simp
  then show "next_gen (float (Fin (- (2 ^ 1023))) (Fin (2 ^ 1023))
         (\<lambda>n :: nat. (Inr (Fin (1 / 2)), Suc n))) () 0 = (Inr PInf, 1)"
    by (simp only: next_gen_source source_of_float prod.case sum.case One_nat_def)
  have "js_add (Fin (- (2 ^ 1023))) (js_mul (js_sub (Fin (2 ^ 1023)) (Fin (- (2 ^ 1023)))) (Fin 0))
      = NaN"
    by (simp only: d) simp
  then show "next_gen (float (Fin (- (2 ^ 1023))) (Fin (2 ^ 1023))
         (\<lambda>n :: nat. (Inr (Fin 0), Suc n))) () 0 = (Inr NaN, 1)"
    by (simp only: next_gen_source source_of_float prod.case sum.case One_nat_def)
qed

text \<open>
  Claim C3. \<open>int(min, max, source)\<close> is \<open>floatWithPrecision(min, max + 1, 0, source)\<close>;
  when the source draws \<open>u\<close> its output is \<open>Math.floor\<close> of the rounded value of
  \<open>min + (max + 1 - min) * u\<close> (precision \<open>0\<close> multiplies and divides by \<open>1\<close>). The
  output is not always at most \<open>max\<close>: at the largest double below \<open>1\<close>, which is
  \<open>1 - 2 ^ - 53\<close>, the sum \<open>100 + u\<close> rounds to \<open>101\<close>, and \<open>int(100, 100)\<close>
  returns \<open>101\<close>.
\<close>

theorem int_gen_exceeds_max:
  "int_gen mn mx source = floatWithPrecision mn (js_add mx (Fin 1)) 0 source
   \<and> next_gen (int_gen mn mx source) () s =
       (case source s of
          (Inl e, s') \<Rightarrow> (Inl e, s')
        | (Inr u, s') \<Rightarrow>
            (Inr (toPrecision 0 (js_add mn (js_mul (js_sub (js_add mx (Fin 1)) mn) u))), s'))
   \<and> toPrecision 0 x = js_div (js_floor (js_mul x (Fin 1))) (Fin 1)
   \<and> is_double (1 - 1 / 2 ^ 53)
   \<and> next_gen (int_gen (Fin 100) (Fin 100) (\<lambda>n :: nat. (Inr (Fin (1 - 1 / 2 ^ 53)), Suc n))) () 0
       = (Inr (Fin 101), 1)
   \<and> \<not> js_le (Fin 101) (Fin 100)"
proof (intro conjI)
  show "\<not> js_le (Fin 101) (Fin 100)"
    by simp
  show "int_gen mn mx source = floatWithPrecision mn (js_add mx (Fin 1)) 0 source"
    by (simp add: int_gen_def)
  show "next_gen (int_gen mn mx source) () s =
       (case source s of
          (Inl e, s') \<Rightarrow> (Inl e, s')
        | (Inr u, s') \<Rightarrow>
            (Inr (toPrecision 0 (js_add mn (js_mul (js_sub (js_add mx (Fin 1)) mn) u))), s'))"
    by (simp only: next_gen_source source_of_int_gen)
  show "toPrecision 0 x = js_div (js_floor (js_mul x (Fin 1))) (Fin 1)"
    using round64_of_int [of 1] by (simp add: toPrecision_def js_pow10_def Let_def)
  show "is_double (1 - 1 / 2 ^ 53)"
    by (simp only: is_double_def is_double_below_one)
  have a1: "js_add (Fin 100) (Fin 1) = Fin 101"
    using round64_of_int [of 101] by simp
  have a2: "js_sub (Fin 101) (Fin 100) = Fin 1"
    using round64_of_int [of 1] by simp
  have a3: "js_mul (Fin 1) (Fin (1 - 1 / 2 ^ 53)) = Fin (1 - 1 / 2 ^ 53)"
    using is_double_below_one by simp
  have a4: "js_add (Fin 100) (Fin (1 - 1 / 2 ^ 53)) = Fin 101"
    by (simp only: js_add.simps round64_101)
  have a5: "toPrecision 0 (Fin 101) = Fin 101"
    using toPrecision_0_int [of 101] by simp
  have "toPrecision 0 (js_add (Fin 100)
          (js_mul (js_sub (js_add (Fin 100) (Fin 1)) (Fin 100)) (Fin (1 - 1 / 2 ^ 53)))) = Fin 101"
    by (simp only: a1 a2 a3 a4 a5)
  then show "next_gen (int_gen (Fin 100) (Fin 100) (\<lambda>n :: nat. (Inr (Fin (1 - 1 / 2 ^ 53)), Suc n))) () 0
       = (Inr (Fin 101), 1)"
    by (simp only: next_gen_source source_of_int_gen prod.case sum.case One_nat_def)
qed

section \<open>Numeric primitives: precision and the printed value\<close>

lemma round64_pow10:
  assumes "p \<le> 15"
  shows "round64 (10 ^ p) = Fin (10 ^ p)" and "(10 :: nat) ^ p \<le> 2 ^ 53"
proof -
  have "(10 :: nat) ^ p \<le> 10 ^ 15"
    using assms by (intro power_increasing) simp_all
  also have "(10 :: nat) ^ 15 \<le> 2 ^ 53"
    by simp
  finally show le: "(10 :: nat) ^ p \<le> 2 ^ 53" .
  then have "round64 (real (10 ^ p)) = Fin (real (10 ^ p))"
    by (rule round64_real_nat)
  then show "round64 (10 ^ p) = Fin (10 ^ p)"
    by simp
qed

lemma floatWithPrecision_unit_value:
  assumes "p \<le> 15" "source s = (Inr (Fin u), s')" "is_double u" "0 \<le> u" "u < 1"
  shows "\<exists>d. round64 (u * 10 ^ p) = Fin d \<and> 0 \<le> \<lfloor>d\<rfloor> \<and> \<lfloor>d\<rfloor> < 10 ^ p
           \<and> next_gen (floatWithPrecision (Fin 0) (Fin 1) p source) () s
               = (Inr (round64 (of_int \<lfloor>d\<rfloor> / 10 ^ p)), s')"
proof -
  have one: "round64 1 = Fin 1"
    using round64_of_int [of 1] by simp
  from assms(3) have u: "round64 u = Fin u"
    by (simp only: is_double_def)
  have a: "js_add (Fin 0) (js_mul (js_sub (Fin 1) (Fin 0)) (Fin u)) = Fin u"
    using one u by simp
  have pw: "js_pow10 p = Fin (10 ^ p)"
    by (simp only: js_pow10_def round64_pow10(1) [OF assms(1)])
  have "1 \<le> (10 :: nat) ^ p"
    by simp
  then obtain d where d: "round64 (real (10 ^ p) * u) = Fin d" and d0: "0 \<le> d"
    and dn: "d < real (10 ^ p)"
    using round64_index [of "10 ^ p" u] round64_pow10(2) [OF assms(1)] u assms(4,5) by blast
  have d': "round64 (u * 10 ^ p) = Fin d"
    using d by (simp add: mult.commute)
  have m: "js_mul (Fin u) (Fin (10 ^ p)) = Fin d"
    using d' by simp
  have nz: "(10 :: real) ^ p \<noteq> 0"
    by simp
  have q: "js_div (Fin (of_int \<lfloor>d\<rfloor>)) (Fin (10 ^ p)) = round64 (of_int \<lfloor>d\<rfloor> / 10 ^ p)"
    using nz by simp
  have "toPrecision p (Fin u) = round64 (of_int \<lfloor>d\<rfloor> / 10 ^ p)"
    by (simp only: toPrecision_def Let_def pw m js_floor.simps q)
  then have "next_gen (floatWithPrecision (Fin 0) (Fin 1) p source) () s
      = (Inr (round64 (of_int \<lfloor>d\<rfloor> / 10 ^ p)), s')"
    using assms(2) by (simp only: next_gen_source source_of_floatWithPrecision prod.case sum.case a)
  moreover have "0 \<le> \<lfloor>d\<rfloor>"
    using d0 by simp
  moreover have "\<lfloor>d\<rfloor> < 10 ^ p"
    using dn by (simp add: floor_less_iff)
  ultimately show ?thesis
    using d' by blast
qed

lemma toPrecision_three:
  "toPrecision 3 (Fin (5188146770730811 / 576460752303423488))
     = Fin (5188146770730811 / 576460752303423488)"
proof -
  have pw: "js_pow10 3 = Fin 1000"
    using round64_of_int [of 1000] by (simp add: js_pow10_def)
  have m: "js_mul (Fin (5188146770730811 / 576460752303423488)) (Fin 1000) = Fin 9"
    using round64_evalI [of "5188146770730811 / 576460752303423488 * 1000" 3 5066549580791808]
    by simp
  have f: "js_floor (Fin 9) = Fin 9"
    by simp
  have q: "js_div (Fin 9) (Fin 1000) = Fin (5188146770730811 / 576460752303423488)"
    using round64_evalI [of "9 / 1000" "- 7" 5188146770730811]
    by simp
  show ?thesis
    by (simp only: toPrecision_def Let_def pw m f q)
qed

lemma length_digits10:
  "1 \<le> k \<Longrightarrow> 10 ^ (k - 1) \<le> s \<Longrightarrow> s < 10 ^ k \<Longrightarrow> length (digits10 s) = k"
proof (induction k arbitrary: s)
  case 0
  then show ?case
    by simp
next
  case (Suc j)
  show ?case
  proof (cases "j = 0")
    case True
    with Suc.prems have "s < 10"
      by simp
    then show ?thesis
      using True by (subst digits10.simps) simp
  next
    case False
    then obtain i where j: "j = Suc i"
      by (cases j) simp_all
    from Suc.prems(2) j have lo: "10 * 10 ^ i \<le> s"
      by simp
    then have "10 \<le> s"
      using one_le_power [of "10 :: nat" i] by linarith
    then have unfold: "digits10 s = digits10 (s div 10) @ [digit_char (s mod 10)]"
      by (subst digits10.simps) simp
    have "1 \<le> j"
      using False by simp
    moreover from lo have "10 ^ (j - 1) \<le> s div 10"
      using j by (simp add: less_eq_div_iff_mult_less_eq mult.commute)
    moreover from Suc.prems(3) have "s div 10 < 10 ^ j"
      by (simp add: div_less_iff_less_mult mult.commute)
    ultimately have "length (digits10 (s div 10)) = j"
      by (rule Suc.IH)
    with unfold show ?thesis
      by simp
  qed
qed

lemma digit_count:
  "0 < K \<Longrightarrow> \<exists>k. 1 \<le> k \<and> 10 ^ (k - 1) \<le> K \<and> K < (10 :: nat) ^ k"
proof (induction K rule: less_induct)
  case (less K)
  show ?case
  proof (cases "K < 10")
    case True
    with less.prems have "1 \<le> (1 :: nat) \<and> 10 ^ (1 - 1) \<le> K \<and> K < 10 ^ 1"
      by simp
    then show ?thesis
      by blast
  next
    case False
    then have "0 < K div 10" "K div 10 < K"
      by (simp_all add: div_greater_zero_iff)
    then obtain k where k: "1 \<le> k" "10 ^ (k - 1) \<le> K div 10" "K div 10 < 10 ^ k"
      using less.IH [of "K div 10"] by blast
    from k(1) obtain i where i: "k = Suc i"
      by (cases k) simp_all
    from k(2) have "10 ^ (Suc k - 1) \<le> K"
      using i by (simp add: less_eq_div_iff_mult_less_eq mult.commute)
    moreover from k(3) have "K < 10 ^ Suc k"
      by (simp add: div_less_iff_less_mult mult.commute)
    ultimately have "1 \<le> Suc k \<and> 10 ^ (Suc k - 1) \<le> K \<and> K < 10 ^ Suc k"
      by simp
    then show ?thesis
      by blast
  qed
qed

lemma length_digits10_small: "m < 100 \<Longrightarrow> length (digits10 m) \<le> 2"
proof (cases "m < 10")
  case True
  then show ?thesis
    by (subst digits10.simps) simp
next
  case False
  assume "m < 100"
  with False have "1 \<le> (2 :: nat)" "10 ^ (2 - 1) \<le> m" "m < 10 ^ 2"
    by simp_all
  then have "length (digits10 m) = 2"
    by (rule length_digits10)
  then show ?thesis
    by simp
qed

lemma length_render:
  assumes "1 \<le> k" "10 ^ (k - 1) \<le> s" "s < 10 ^ k" "n \<le> 0" "- 13 \<le> n" "int k - n \<le> int p"
  shows "length (render n k s) \<le> p + 2"
proof -
  have ds: "length (digits10 s) = k"
    using assms(1-3) by (rule length_digits10)
  show ?thesis
  proof (cases "- 5 \<le> n")
    case True
    with assms(1,4) have "render n k s = ''0.'' @ replicate (nat (- n)) CHR ''0'' @ digits10 s"
      by (simp add: render_def Let_def)
    then have "length (render n k s) = 2 + nat (- n) + k"
      using ds by simp
    with assms(4,6) show ?thesis
      by linarith
  next
    case False
    have "nat \<bar>n - 1\<bar> < 100"
      using assms(4,5) by linarith
    then have e: "length (digits10 (nat \<bar>n - 1\<bar>)) \<le> 2"
      by (rule length_digits10_small)
    have "length (render n k s) \<le> k + 3 + length (digits10 (nat \<bar>n - 1\<bar>))"
      using False assms(1,4) ds by (simp add: render_def Let_def)
    with e have "length (render n k s) \<le> k + 5"
      by linarith
    with False assms(6) show ?thesis
      by linarith
  qed
qed

lemma powi10_add: "(10 :: real) powi (a + b) = 10 powi a * 10 powi b"
  by (rule power_int_add) simp

lemma decade_bounds:
  assumes "1 \<le> k" "k \<le> 14" "10 ^ (k - 1) \<le> s" "s < 10 ^ k"
  shows "10 powi (n - 1) \<le> real s * 10 powi (n - int k)"
    and "real s * 10 powi (n - int k) \<le> 10 powi n * (1 - 1 / 10 ^ 14)"
proof -
  let ?t = "(10 :: real) powi (n - int k)"
  have t0: "0 < ?t"
    by simp
  have "n - 1 = int (k - 1) + (n - int k)"
    using assms(1) by simp
  then have "(10 :: real) powi (n - 1) = 10 powi (int (k - 1)) * ?t"
    by (simp only: powi10_add)
  then have lo: "(10 :: real) powi (n - 1) = 10 ^ (k - 1) * ?t"
    by simp
  have "real (10 ^ (k - 1)) \<le> real s"
    using assms(3) by (simp only: of_nat_le_iff)
  then have "(10 :: real) ^ (k - 1) \<le> real s"
    by simp
  then have "10 ^ (k - 1) * ?t \<le> real s * ?t"
    using t0 by (intro mult_right_mono) simp_all
  with lo show "10 powi (n - 1) \<le> real s * ?t"
    by simp
  have "n = int k + (n - int k)"
    by simp
  then have "(10 :: real) powi n = 10 powi (int k) * ?t"
    by (simp only: powi10_add [symmetric])
  then have hi: "(10 :: real) powi n = 10 ^ k * ?t"
    by simp
  from assms(4) have "s + 1 \<le> 10 ^ k"
    by simp
  then have "real (s + 1) \<le> real (10 ^ k)"
    by (simp only: of_nat_le_iff)
  then have s1: "real s \<le> 10 ^ k - 1"
    by simp
  have "(10 :: real) ^ k \<le> 10 ^ 14"
    using assms(2) by (intro power_increasing) simp_all
  then have "(10 :: real) ^ k / 10 ^ 14 \<le> 1"
    by simp
  then have "(10 :: real) ^ k - 1 \<le> 10 ^ k - 10 ^ k / 10 ^ 14"
    by linarith
  also have "\<dots> = 10 ^ k * (1 - 1 / 10 ^ 14)"
    by (simp add: algebra_simps)
  finally have "real s \<le> 10 ^ k * (1 - 1 / 10 ^ 14)"
    using s1 by linarith
  then have "real s * ?t \<le> 10 ^ k * (1 - 1 / 10 ^ 14) * ?t"
    using t0 by (intro mult_right_mono) simp_all
  also have "\<dots> = 10 powi n * (1 - 1 / 10 ^ 14)"
    by (simp only: hi mult.assoc mult.commute [of "1 - 1 / 10 ^ 14" ?t])
  finally show "real s * ?t \<le> 10 powi n * (1 - 1 / 10 ^ 14)" .
qed

lemma shortest_digits_exists:
  assumes "digits_of x n k s"
  shows "\<exists>n k s. shortest_digits x n k s"
proof -
  let ?P = "\<lambda>k. \<exists>n s. digits_of x n k s"
  from assms have "?P k"
    by blast
  then have "?P (Least ?P)"
    by (rule LeastI)
  then obtain n' s' where d: "digits_of x n' (Least ?P) s'"
    by blast
  have "\<forall>n'' k'' s''. digits_of x n'' k'' s'' \<longrightarrow> Least ?P \<le> k''"
  proof (intro allI impI)
    fix n'' k'' s''
    assume "digits_of x n'' k'' s''"
    then have "?P k''"
      by blast
    then show "Least ?P \<le> k''"
      by (rule Least_le)
  qed
  with d have "shortest_digits x n' (Least ?P) s'"
    by (simp only: shortest_digits_def simp_thms)
  then show ?thesis
    by blast
qed

lemma round64_min_normal: "round64 (2 powi (- 1022)) = Fin (2 powi (- 1022))"
  using grid_double [of 1 "- 1022"] by simp

lemma round64_one: "round64 1 = Fin 1"
  using round64_of_int [of 1] by simp

text \<open>
  A value \<open>K / 10 ^ p\<close> with \<open>0 < K < 10 ^ p\<close> and \<open>p \<le> 14\<close>, rounded to a double \<open>x\<close>:
  every shortest digit string of \<open>x\<close> has the decimal exponent of \<open>K / 10 ^ p\<close> and at
  most as many digits as \<open>K\<close>.
\<close>

lemma shortest_digits_of_fraction:
  assumes p: "p \<le> 14" and K: "0 < K" "K < 10 ^ p"
    and x: "round64 (real K / 10 ^ p) = Fin x"
    and sd: "shortest_digits x n k s"
  shows "1 \<le> k \<and> 10 ^ (k - 1) \<le> s \<and> s < 10 ^ k \<and> n \<le> 0 \<and> - 13 \<le> n \<and> int k - n \<le> int p"
proof -
  obtain k0 where k0: "1 \<le> k0" "10 ^ (k0 - 1) \<le> K" "K < 10 ^ k0"
    using digit_count [OF K(1)] by blast
  have "(10 :: nat) ^ (k0 - 1) < 10 ^ p"
    using k0(2) K(2) by linarith
  then have "k0 - 1 < p"
    by (simp only: power_strict_increasing_iff [of "10 :: nat"] rel_simps simp_thms)
  with k0(1) have k0p: "k0 \<le> p"
    by linarith
  with p have k014: "k0 \<le> 14"
    by linarith
  let ?n0 = "int k0 - int p"
  let ?v = "real K / 10 ^ p"
  have "- int p = ?n0 - int k0"
    by simp
  then have "(10 :: real) powi (?n0 - int k0) = 10 powi (- int p)"
    by (simp only:)
  also have "\<dots> = 1 / 10 ^ p"
    by (simp add: power_int_minus_divide)
  finally have v: "real K * 10 powi (?n0 - int k0) = ?v"
    by simp
  have d0: "digits_of x ?n0 k0 K"
    using k0 x by (simp only: digits_of_def v simp_thms)
  from sd have d: "digits_of x n k s" and least: "\<And>n' k' s'. digits_of x n' k' s' \<Longrightarrow> k \<le> k'"
    by (simp_all only: shortest_digits_def)
  from least [OF d0] have kk0: "k \<le> k0" .
  from d have k: "1 \<le> k" "10 ^ (k - 1) \<le> s" "s < 10 ^ k"
    and r: "round64 (real s * 10 powi (n - int k)) = Fin x"
    by (simp_all only: digits_of_def)
  let ?r = "real s * 10 powi (n - int k)"
  have k14: "k \<le> 14"
    using kk0 k014 by linarith
  have vlo: "10 powi (?n0 - 1) \<le> ?v" and vhi: "?v \<le> 10 powi ?n0 * (1 - 1 / 10 ^ 14)"
    using decade_bounds [OF k0(1) k014 k0(2,3), of ?n0] by (simp_all only: v)
  have rlo: "10 powi (n - 1) \<le> ?r" and rhi: "?r \<le> 10 powi n * (1 - 1 / 10 ^ 14)"
    using decade_bounds [OF k(1) k14 k(2,3), of n] by simp_all
  have r0: "0 < ?r"
  proof -
    have "(0 :: real) < 10 powi (n - 1)"
      by simp
    with rlo show ?thesis
      by linarith
  qed
  have "- 14 \<le> ?n0 - 1"
    using k0(1) p by linarith
  then have "(10 :: real) powi (- 14) \<le> 10 powi (?n0 - 1)"
    by (intro power_int_increasing) simp_all
  moreover have "(10 :: real) powi (- 14) = 1 / 10 ^ 14"
    by (simp add: power_int_minus_divide)
  ultimately have v14: "1 / 10 ^ 14 \<le> ?v"
    using vlo by linarith
  have "(2 :: real) powi (- 1022) \<le> 1 / 10 ^ 14"
    by (simp add: power_int_minus_divide)
  with v14 have vnorm: "2 powi (- 1022) \<le> ?v"
    by linarith
  have n00: "?n0 \<le> 0"
    using k0p by simp
  then have "(10 :: real) powi ?n0 \<le> 10 powi 0"
    by (intro power_int_increasing) simp_all
  then have "10 powi ?n0 * (1 - 1 / 10 ^ 14) \<le> 1 * (1 - 1 / (10 :: real) ^ 14)"
    by (intro mult_right_mono) simp_all
  with vhi have v1: "?v \<le> 1 - 1 / 10 ^ 14"
    by simp
  have v1': "?v \<le> 1"
  proof -
    have "1 - 1 / 10 ^ 14 \<le> (1 :: real)"
      by simp
    with v1 show ?thesis
      by (rule order_trans)
  qed
  obtain y where y: "round64 ?v = Fin y" and yv: "\<bar>y - ?v\<bar> \<le> ?v / 2 ^ 53"
    using round64_rel [OF vnorm v1'] by blast
  from x y have xy: "y = x"
    by simp
  have xlo: "?v - ?v / 2 ^ 53 \<le> x" and xhi: "x \<le> ?v + ?v / 2 ^ 53"
    using yv xy by linarith+
  have "?v + ?v / 2 ^ 53 = ?v * (1 + 1 / 2 ^ 53)"
    by (simp add: algebra_simps)
  also have "\<dots> \<le> (1 - 1 / 10 ^ 14) * (1 + 1 / 2 ^ 53)"
    using v1 by (intro mult_right_mono) simp_all
  also have "\<dots> < 1"
    by simp
  finally have x1: "x < 1"
    using xhi by linarith
  have "?v - ?v / 2 ^ 53 = ?v * (1 - 1 / 2 ^ 53)"
    by (simp add: algebra_simps)
  moreover have "1 / 10 ^ 14 * (1 - 1 / 2 ^ 53) \<le> ?v * (1 - 1 / 2 ^ 53)"
    using v14 by (intro mult_right_mono) simp_all
  moreover have "(2 :: real) powi (- 1022) < 1 / 10 ^ 14 * (1 - 1 / 2 ^ 53)"
    by (simp add: power_int_minus_divide)
  ultimately have xnorm: "2 powi (- 1022) < x"
    using xlo by linarith
  have r1: "?r \<le> 1"
  proof (rule ccontr)
    assume "\<not> ?r \<le> 1"
    then have "(0 :: real) \<le> 1" "1 \<le> ?r"
      by simp_all
    then obtain a where "round64 1 = Fin a" "a \<le> x"
      using round64_mono [of 1 ?r x] r by blast
    with x1 show False
      by (simp add: round64_one)
  qed
  have rnorm: "2 powi (- 1022) \<le> ?r"
  proof (rule ccontr)
    assume "\<not> 2 powi (- 1022) \<le> ?r"
    then have "?r \<le> 2 powi (- 1022)"
      by simp
    moreover have "0 \<le> ?r"
      using r0 by simp
    ultimately obtain a where "round64 ?r = Fin a" "a \<le> 2 powi (- 1022)"
      using round64_mono [of ?r "2 powi (- 1022)" "2 powi (- 1022)"] round64_min_normal by blast
    with r xnorm show False
      by simp
  qed
  have "\<not> n < ?n0"
  proof
    assume "n < ?n0"
    then have "n \<le> ?n0 - 1"
      by simp
    then have "(10 :: real) powi n \<le> 10 powi (?n0 - 1)"
      by (intro power_int_increasing) simp_all
    with vlo have "10 powi n \<le> ?v"
      by linarith
    then have "10 powi n * (1 - 1 / 10 ^ 14) \<le> ?v * (1 - 1 / 10 ^ 14)"
      by (intro mult_right_mono) simp_all
    with rhi have "?r \<le> ?v * (1 - 1 / 10 ^ 14)"
      by linarith
    with rnorm v1' have "round64 ?r \<noteq> round64 ?v"
      by (rule round64_separates)
    with r x show False
      by simp
  qed
  moreover have "\<not> ?n0 < n"
  proof
    assume "?n0 < n"
    then have "?n0 \<le> n - 1"
      by simp
    then have "(10 :: real) powi ?n0 \<le> 10 powi (n - 1)"
      by (intro power_int_increasing) simp_all
    with rlo have "10 powi ?n0 \<le> ?r"
      by linarith
    then have "10 powi ?n0 * (1 - 1 / 10 ^ 14) \<le> ?r * (1 - 1 / 10 ^ 14)"
      by (intro mult_right_mono) simp_all
    with vhi have "?v \<le> ?r * (1 - 1 / 10 ^ 14)"
      by linarith
    with vnorm r1 have "round64 ?v \<noteq> round64 ?r"
      by (rule round64_separates)
    with r x show False
      by simp
  qed
  ultimately have n: "n = ?n0"
    by linarith
  have "- 13 \<le> n"
    using n k0(1) p by linarith
  moreover have "n \<le> 0"
    using n n00 by simp
  moreover have "int k - n \<le> int p"
    using n kk0 by linarith
  ultimately show ?thesis
    using k by simp
qed

lemma ulp_less: "0 < v \<Longrightarrow> v / 2 ^ 53 < (v :: real)"
  by simp

lemma number_to_string_zero: "number_to_string (Fin 0) str \<longleftrightarrow> str = ''0''"
  by (simp add: number_to_string_def)

lemma number_to_string_pos:
  "0 < x \<Longrightarrow> number_to_string (Fin x) str
     \<longleftrightarrow> (\<exists>n k s. shortest_digits x n k s \<and> str = render n k s)"
  by (simp add: number_to_string_def)

lemma fraction_string_length:
  assumes "p \<le> 14" "0 \<le> K" "K < 10 ^ p"
  shows "\<exists>y. round64 (of_int K / 10 ^ p) = y \<and> (\<exists>str. number_to_string y str)
           \<and> (\<forall>str. number_to_string y str \<longrightarrow> length str \<le> p + 2)"
proof (cases "K = 0")
  case True
  then have "round64 (of_int K / 10 ^ p) = Fin 0"
    by (simp add: round64_def)
  moreover have "number_to_string (Fin 0) ''0''"
    by (simp add: number_to_string_zero)
  then have "\<exists>str. number_to_string (Fin 0) str"
    by blast
  moreover have "\<forall>str. number_to_string (Fin 0) str \<longrightarrow> length str \<le> p + 2"
    by (simp add: number_to_string_zero)
  ultimately show ?thesis
    by simp
next
  case False
  let ?K = "nat K"
  from False assms(2) have K0: "0 < ?K"
    by simp
  have "int ?K < int (10 ^ p)"
    using assms(2,3) by simp
  then have Kp: "?K < 10 ^ p"
    by (simp only: of_nat_less_iff)
  have eq: "(of_int K :: real) = real ?K"
    using assms(2) by simp
  let ?v = "real ?K / 10 ^ p"
  obtain k0 where k0: "1 \<le> k0" "10 ^ (k0 - 1) \<le> ?K" "?K < 10 ^ k0"
    using digit_count [OF K0] by blast
  have "1 \<le> ?K"
    using K0 by simp
  then have "real 1 \<le> real ?K"
    by (simp only: of_nat_le_iff)
  then have "1 / 10 ^ p \<le> ?v"
    by (simp add: divide_right_mono)
  moreover have "(10 :: real) ^ p \<le> 10 ^ 14"
    using assms(1) by (intro power_increasing) simp_all
  then have "1 / 10 ^ 14 \<le> 1 / (10 :: real) ^ p"
    by (intro divide_left_mono) simp_all
  moreover have "(2 :: real) powi (- 1022) \<le> 1 / 10 ^ 14"
    by (simp add: power_int_minus_divide)
  ultimately have vnorm: "2 powi (- 1022) \<le> ?v"
    by linarith
  have "?K \<le> 10 ^ p"
    using Kp by simp
  then have "real ?K \<le> real (10 ^ p)"
    by (simp only: of_nat_le_iff)
  then have v1: "?v \<le> 1"
    by (simp add: divide_le_eq)
  obtain x where x: "round64 ?v = Fin x" and xv: "\<bar>x - ?v\<bar> \<le> ?v / 2 ^ 53"
    using round64_rel [OF vnorm v1] by blast
  have "(0 :: real) < 2 powi (- 1022)"
    by simp
  with vnorm have v0: "0 < ?v"
    by linarith
  from v0 have "?v / 2 ^ 53 < ?v"
    by (rule ulp_less)
  with xv have x0: "0 < x"
    by linarith
  have "- int p = (int k0 - int p) - int k0"
    by simp
  then have "(10 :: real) powi ((int k0 - int p) - int k0) = 10 powi (- int p)"
    by (simp only:)
  also have "\<dots> = 1 / 10 ^ p"
    by (simp add: power_int_minus_divide)
  finally have "real ?K * 10 powi ((int k0 - int p) - int k0) = ?v"
    by simp
  then have "digits_of x (int k0 - int p) k0 ?K"
    using k0 x by (simp only: digits_of_def simp_thms)
  then obtain n k s where sd: "shortest_digits x n k s"
    using shortest_digits_exists by blast
  then have ex: "\<exists>str. number_to_string (Fin x) str"
    using x0 by (auto simp add: number_to_string_pos)
  have rx: "round64 (of_int K / 10 ^ p) = Fin x"
    using x by (simp only: eq)
  have "\<forall>str. number_to_string (Fin x) str \<longrightarrow> length str \<le> p + 2"
  proof (intro allI impI)
    fix str
    assume "number_to_string (Fin x) str"
    then obtain n k s where sd: "shortest_digits x n k s" and str: "str = render n k s"
      using x0 by (auto simp add: number_to_string_pos)
    have "1 \<le> k \<and> 10 ^ (k - 1) \<le> s \<and> s < 10 ^ k \<and> n \<le> 0 \<and> - 13 \<le> n \<and> int k - n \<le> int p"
      using assms(1) K0 Kp x sd by (rule shortest_digits_of_fraction)
    then have "length (render n k s) \<le> p + 2"
      by (intro length_render) simp_all
    with str show "length str \<le> p + 2"
      by simp
  qed
  with ex rx show ?thesis
    by blast
qed

lemma number_to_string_half: "number_to_string (Fin (1 / 2)) ''0.5''"
proof -
  have "round64 (of_int 1 / 2 ^ 1) = Fin (of_int 1 / 2 ^ 1)"
    by (rule round64_dyadic) simp_all
  then have "round64 (real 5 * 10 powi (0 - int 1)) = Fin (1 / 2)"
    by simp
  then have "digits_of (1 / 2) 0 1 5"
    by (simp add: digits_of_def)
  moreover have "\<forall>n' k' s'. digits_of (1 / 2) n' k' s' \<longrightarrow> 1 \<le> k'"
    by (simp add: digits_of_def)
  ultimately have "shortest_digits (1 / 2) 0 1 5"
    by (simp only: shortest_digits_def simp_thms)
  moreover have "render 0 1 5 = ''0.5''"
    by (simp add: render_def Let_def digits10.simps digit_char_def)
  ultimately have "shortest_digits (1 / 2) 0 1 5 \<and> ''0.5'' = render 0 1 5"
    by (simp only: simp_thms)
  then have "\<exists>n k s. shortest_digits (1 / 2) n k s \<and> ''0.5'' = render n k s"
    by (intro exI)
  then show ?thesis
    by (simp add: number_to_string_pos)
qed

lemma render_examples:
  "render (- 6) 1 1 = ''1e-7''"
  "render (- 2) 2 25 = ''0.0025''"
  "render 22 2 12 = ''1.2e+21''"
  "render 3 2 12 = ''120''"
  "render 1 3 125 = ''1.25''"
proof -
  have two: "replicate 2 CHR ''0'' = ''00''"
    by (simp add: numeral_2_eq_2)
  show "render (- 6) 1 1 = ''1e-7''"
    by (simp add: render_def Let_def digits10.simps digit_char_def)
  show "render (- 2) 2 25 = ''0.0025''"
    by (simp add: render_def Let_def digits10.simps digit_char_def two)
  show "render 22 2 12 = ''1.2e+21''"
    by (simp add: render_def Let_def digits10.simps digit_char_def)
  show "render 3 2 12 = ''120''"
    by (simp add: render_def Let_def digits10.simps digit_char_def)
  show "render 1 3 125 = ''1.25''"
    by (simp add: render_def Let_def digits10.simps digit_char_def)
qed

lemma number_to_string_0009:
  "number_to_string (Fin (5188146770730811 / 576460752303423488)) ''0.009''"
proof -
  have "round64 (9 / 1000) = Fin (5188146770730811 / 576460752303423488)"
    using round64_evalI [of "9 / 1000" "- 7" 5188146770730811] by simp
  then have "round64 (real 9 * 10 powi (- 2 - int 1)) = Fin (5188146770730811 / 576460752303423488)"
    by (simp add: power_int_minus_divide)
  then have "digits_of (5188146770730811 / 576460752303423488) (- 2) 1 9"
    by (simp add: digits_of_def)
  moreover have "\<forall>n' k' s'. digits_of (5188146770730811 / 576460752303423488) n' k' s' \<longrightarrow> 1 \<le> k'"
    by (simp add: digits_of_def)
  ultimately have "shortest_digits (5188146770730811 / 576460752303423488) (- 2) 1 9"
    by (simp only: shortest_digits_def simp_thms)
  moreover have "render (- 2) 1 9 = ''0.009''"
    by (simp add: render_def Let_def digits10.simps digit_char_def numeral_2_eq_2)
  ultimately have "shortest_digits (5188146770730811 / 576460752303423488) (- 2) 1 9
      \<and> ''0.009'' = render (- 2) 1 9"
    by (simp only: simp_thms)
  then have "\<exists>n k s. shortest_digits (5188146770730811 / 576460752303423488) n k s
      \<and> ''0.009'' = render n k s"
    by (intro exI)
  then show ?thesis
    by (simp add: number_to_string_pos)
qed

text \<open>
  Claim C9. For every precision \<open>p\<close> from \<open>0\<close> to \<open>14\<close>, when the source draws a double
  \<open>u\<close> with \<open>0 \<le> u < 1\<close>, \<open>floatWithPrecision(0, 1, p).next()\<close> returns a number
  that the host can convert to a string, and every string the conversion may return for
  it has at most \<open>p + 2\<close> characters. At \<open>p = 1\<close> and \<open>u = 0.5\<close> the value is \<open>0.5\<close>
  and the string \<open>"0.5"\<close> has exactly three.
\<close>

theorem floatWithPrecision_string_length:
  "p \<le> 14 \<and> source s = (Inr (Fin u), s') \<and> is_double u \<and> 0 \<le> u \<and> u < 1 \<longrightarrow>
     (\<exists>y. next_gen (floatWithPrecision (Fin 0) (Fin 1) p source) () s = (Inr y, s')
        \<and> (\<exists>str. number_to_string y str)
        \<and> (\<forall>str. number_to_string y str \<longrightarrow> length str \<le> p + 2))"
proof (intro impI, elim conjE)
  assume p: "p \<le> 14" and src: "source s = (Inr (Fin u), s')"
    and u: "is_double u" "0 \<le> u" "u < 1"
  from p have p15: "p \<le> 15"
    by simp
  obtain d :: real where d: "0 \<le> \<lfloor>d\<rfloor>" "\<lfloor>d\<rfloor> < 10 ^ p"
    and nxt: "next_gen (floatWithPrecision (Fin 0) (Fin 1) p source) () s
               = (Inr (round64 (of_int \<lfloor>d\<rfloor> / 10 ^ p)), s')"
    using floatWithPrecision_unit_value [of p source s u s'] p15 src u by blast
  from fraction_string_length [OF p d]
  have "(\<exists>str. number_to_string (round64 (of_int \<lfloor>d\<rfloor> / 10 ^ p)) str)
        \<and> (\<forall>str. number_to_string (round64 (of_int \<lfloor>d\<rfloor> / 10 ^ p)) str \<longrightarrow> length str \<le> p + 2)"
    by blast
  with nxt show "\<exists>y. next_gen (floatWithPrecision (Fin 0) (Fin 1) p source) () s = (Inr y, s')
        \<and> (\<exists>str. number_to_string y str)
        \<and> (\<forall>str. number_to_string y str \<longrightarrow> length str \<le> p + 2)"
    by blast
qed

theorem floatWithPrecision_string_length_witness:
  "next_gen (floatWithPrecision (Fin 0) (Fin 1) 1 (\<lambda>n :: nat. (Inr (Fin (1 / 2)), Suc n))) () 0
     = (Inr (Fin (1 / 2)), Suc 0)
   \<and> number_to_string (Fin (1 / 2)) ''0.5''
   \<and> length ''0.5'' \<le> 1 + 2"
proof -
  have h: "round64 (1 / 2) = Fin (1 / 2)"
    using round64_dyadic [of 1 1] by simp
  have one: "round64 1 = Fin 1"
    using round64_of_int [of 1] by simp
  have a: "js_add (Fin 0) (js_mul (js_sub (Fin 1) (Fin 0)) (Fin (1 / 2))) = Fin (1 / 2)"
    using one h by simp
  have pw: "js_pow10 1 = Fin 10"
    using round64_of_int [of 10] by (simp add: js_pow10_def)
  have m: "js_mul (Fin (1 / 2)) (Fin 10) = Fin 5"
    using round64_of_int [of 5] by simp
  have f: "js_floor (Fin 5) = Fin 5"
    by simp
  have q: "js_div (Fin 5) (Fin 10) = Fin (1 / 2)"
    using h by simp
  have t: "toPrecision 1 (Fin (1 / 2)) = Fin (1 / 2)"
    by (simp only: toPrecision_def Let_def pw m f q)
  have nxt: "next_gen (floatWithPrecision (Fin 0) (Fin 1) 1 (\<lambda>n :: nat. (Inr (Fin (1 / 2)), Suc n))) () 0
      = (Inr (Fin (1 / 2)), Suc 0)"
    by (simp only: next_gen_source source_of_floatWithPrecision prod.case sum.case a t)
  have str: "number_to_string (Fin (1 / 2)) ''0.5''"
    by (rule number_to_string_half)
  have dbl: "is_double (1 / 2)"
    using h by (simp only: is_double_def)
  have "(1 :: nat) \<le> 14 \<and> (\<lambda>n :: nat. (Inr (Fin (1 / 2)) :: error + number, Suc n)) 0
          = (Inr (Fin (1 / 2)), Suc 0)
        \<and> is_double (1 / 2) \<and> (0 :: real) \<le> 1 / 2 \<and> (1 / 2 :: real) < 1"
    using dbl by simp
  then obtain y where y: "next_gen (floatWithPrecision (Fin 0) (Fin 1) 1
        (\<lambda>n :: nat. (Inr (Fin (1 / 2)), Suc n))) () 0 = (Inr y, Suc 0)"
    and bound: "\<And>str. number_to_string y str \<Longrightarrow> length str \<le> 1 + 2"
    using floatWithPrecision_string_length
      [of 1 "\<lambda>n :: nat. (Inr (Fin (1 / 2)), Suc n)" 0 "1 / 2" "Suc 0"]
    by blast
  from y nxt have "y = Fin (1 / 2)"
    by simp
  with bound [of "''0.5''"] str have "length ''0.5'' \<le> 1 + 2"
    by (simp only:)
  with nxt str show ?thesis
    by (intro conjI)
qed

section \<open>Selection primitives: uniform choice\<close>








section \<open>Selection primitives: weighted choice\<close>

lemma js_add_commute: "js_add a b = js_add b a"
  by (cases a; cases b) (simp_all add: add.commute)

lemma running_total_snoc: "running_total (ws @ [w]) = js_add (running_total ws) w"
  by (simp add: running_total_def)

lemma continiousSum_from:
  "i \<le> length source \<Longrightarrow> sumv = running_total (map snd (take i source)) \<Longrightarrow>
   continiousSum source target i sumv =
     Inr (target @ map (\<lambda>j. (fst (source ! j), running_total (map snd (take (Suc j) source))))
                    [i..<length source])"
proof (induction source target i sumv rule: continiousSum.induct)
  case (1 source target i sumv)
  show ?case
  proof (cases "i = length source")
    case True
    then show ?thesis
      by (subst continiousSum.simps) simp
  next
    case False
    with "1.prems" have lt: "i < length source"
      by simp
    have step: "running_total (map snd (take (Suc i) source)) = js_add sumv (snd (source ! i))"
      using lt "1.prems"(2) by (simp add: take_Suc_conv_app_nth running_total_snoc)
    have "continiousSum source target i sumv =
        continiousSum source (target @ [(fst (source ! i), js_add (snd (source ! i)) sumv)])
          (i + 1) (js_add sumv (snd (source ! i)))"
      using lt by (subst continiousSum.simps) simp
    also have "\<dots> = Inr ((target @ [(fst (source ! i), js_add (snd (source ! i)) sumv)])
        @ map (\<lambda>j. (fst (source ! j), running_total (map snd (take (Suc j) source))))
            [i + 1..<length source])"
      using lt False step by (intro "1.IH") simp_all
    also have "\<dots> = Inr (target @ map (\<lambda>j. (fst (source ! j), running_total (map snd (take (Suc j) source))))
            [i..<length source])"
      using lt step by (simp add: upt_conv_Cons js_add_commute)
    finally show ?thesis .
  qed
qed

lemma continiousSum_cumulative_weights:
  "continiousSum xs [] 0 (Fin 0) = Inr (cumulative_weights xs)"
proof -
  have "continiousSum xs [] 0 (Fin 0) =
      Inr ([] @ map (\<lambda>j. (fst (xs ! j), running_total (map snd (take (Suc j) xs)))) [0..<length xs])"
    by (rule continiousSum_from) (simp_all add: running_total_def)
  then show ?thesis
    by (simp only: cumulative_weights_def append_Nil)
qed

lemma getByWeight_find:
  "getByWeight source weight i =
     (case find (\<lambda>p. js_le weight (snd p)) (drop i source) of
        None \<Rightarrow> Inl (Error ''Uhhh... bad!!!!'')
      | Some p \<Rightarrow> Inr (fst p))"
proof (induction source weight i rule: getByWeight.induct)
  case (1 source weight i)
  show ?case
  proof (cases "i < length source")
    case False
    then show ?thesis
      by (subst getByWeight.simps) simp
  next
    case True
    then have d: "drop i source = source ! i # drop (Suc i) source"
      by (simp add: Cons_nth_drop_Suc)
    show ?thesis
    proof (cases "js_le weight (snd (source ! i))")
      case hit: True
      with True d show ?thesis
        by (subst getByWeight.simps) simp
    next
      case miss: False
      with True have "getByWeight source weight i = getByWeight source weight (i + 1)"
        by (subst getByWeight.simps) simp
      also have "\<dots> = (case find (\<lambda>p. js_le weight (snd p)) (drop (i + 1) source) of
          None \<Rightarrow> Inl (Error ''Uhhh... bad!!!!'') | Some p \<Rightarrow> Inr (fst p))"
        using True miss by (rule "1.IH")
      finally show ?thesis
        using miss d by simp
    qed
  qed
qed






lemma weighted_nonempty:
  "rest \<noteq> [] \<Longrightarrow>
   weighted first rest source =
     Inr (map_gen (float (Fin 0) (foldl (\<lambda>acc pair. js_add acc (snd pair)) (snd first) rest) source)
            (\<lambda>x s. (getByWeight (cumulative_weights (first # rest)) x 0, s)))"
  by (simp add: weighted_def continiousSum_cumulative_weights)

lemma source_of_weighted_gen:
  "source_of (map_gen (float (Fin 0) tot source) (\<lambda>x s. (getByWeight normalized x 0, s))) s =
     (case source s of
        (Inl e, s') \<Rightarrow> (Inl e, s')
      | (Inr u, s') \<Rightarrow>
          (case find (\<lambda>p. js_le (js_add (Fin 0) (js_mul (js_sub tot (Fin 0)) u)) (snd p)) normalized of
             None \<Rightarrow> Inl (Error ''Uhhh... bad!!!!'')
           | Some p \<Rightarrow> Inr (fst p), s'))"
  by (simp add: source_of_map_gen source_of_float getByWeight_find split: prod.split sum.split)










lemma round64_2_1024: "round64 (2 ^ 1023 + 2 ^ 1023) = PInf"
  using round64_evalI [of "2 ^ 1023 + 2 ^ 1023" 1024 "2 ^ 52"]
  by simp

lemma round64_2_1023: "round64 (2 ^ 1023) = Fin (2 ^ 1023)"
  using grid_double [of "2 ^ 52" 971]
  by simp

text \<open>
  Claim C5. The \<open>throw\<close> of \<open>getByWeight\<close> is reached with weights that are finite,
  non-negative doubles and a draw in \<open>[0, 1)\<close>: for the two weights \<open>2 ^ 1023\<close> the
  sum overflows to \<open>Infinity\<close>, the draw \<open>0\<close> makes the drawn weight
  \<open>Infinity * 0 = NaN\<close>, no cumulative weight compares as at least \<open>NaN\<close>, and
  \<open>next\<close> fails with the error.
\<close>

theorem getByWeight_throw_reached:
  "is_double (2 ^ 1023) \<and> is_double 0
   \<and> foldl (\<lambda>acc pair. js_add acc (snd pair)) (Fin (2 ^ 1023)) [(''b'', Fin (2 ^ 1023))] = PInf
   \<and> cumulative_weights [(''a'', Fin (2 ^ 1023)), (''b'', Fin (2 ^ 1023))]
       = [(''a'', Fin (2 ^ 1023)), (''b'', PInf)]
   \<and> js_add (Fin 0) (js_mul (js_sub PInf (Fin 0)) (Fin 0)) = NaN
   \<and> (\<exists>g. weighted (''a'', Fin (2 ^ 1023)) [(''b'', Fin (2 ^ 1023))]
             (\<lambda>n :: nat. (Inr (Fin 0), Suc n)) = Inr g
          \<and> next_gen g () 0 = (Inl (Error ''Uhhh... bad!!!!''), 1))"
proof (intro conjI)
  show "is_double (2 ^ 1023)"
    by (simp only: is_double_def round64_2_1023)
  show "is_double 0"
    by (simp add: is_double_def round64_def)
  have add: "js_add (Fin (2 ^ 1023)) (Fin (2 ^ 1023)) = PInf"
    by (simp only: js_add.simps round64_2_1024)
  have add0: "js_add (Fin 0) (Fin (2 ^ 1023)) = Fin (2 ^ 1023)"
    by (simp only: js_add.simps add_0 round64_2_1023)
  show tot: "foldl (\<lambda>acc pair. js_add acc (snd pair)) (Fin (2 ^ 1023)) [(''b'', Fin (2 ^ 1023))] = PInf"
    by (simp only: foldl.simps snd_conv add)
  show cs: "cumulative_weights [(''a'', Fin (2 ^ 1023)), (''b'', Fin (2 ^ 1023))]
       = [(''a'', Fin (2 ^ 1023)), (''b'', PInf)]"
  proof -
    have "[0..<length [(''a'', Fin (2 ^ 1023)), (''b'', Fin (2 ^ 1023))]] = [0, Suc 0]"
      by (simp add: upt_rec)
    moreover have "running_total [Fin (2 ^ 1023)] = Fin (2 ^ 1023)"
      by (simp only: running_total_def foldl.simps add0)
    moreover have "running_total [Fin (2 ^ 1023), Fin (2 ^ 1023)] = PInf"
      by (simp only: running_total_def foldl.simps add0 add)
    ultimately show ?thesis
      by (simp only: cumulative_weights_def list.map nth_Cons_0 nth_Cons_Suc fst_conv snd_conv
          take_Suc_Cons take_0)
  qed
  show draw: "js_add (Fin 0) (js_mul (js_sub PInf (Fin 0)) (Fin 0)) = NaN"
    by simp
  let ?g = "map_gen (float (Fin 0)
      (foldl (\<lambda>acc pair. js_add acc (snd pair)) (snd (''a'', Fin (2 ^ 1023 :: real)))
         [(''b'', Fin (2 ^ 1023))])
      (\<lambda>n :: nat. (Inr (Fin 0), Suc n)))
      (\<lambda>x s. (getByWeight (cumulative_weights [(''a'', Fin (2 ^ 1023)), (''b'', Fin (2 ^ 1023))]) x 0, s))"
  have "weighted (''a'', Fin (2 ^ 1023)) [(''b'', Fin (2 ^ 1023))]
             (\<lambda>n :: nat. (Inr (Fin 0), Suc n)) = Inr ?g"
    by (rule weighted_nonempty) simp
  moreover have "next_gen ?g () 0 = (Inl (Error ''Uhhh... bad!!!!''), 1)"
    by (simp only: next_gen_source source_of_weighted_gen prod.case sum.case snd_conv tot draw cs)
      simp
  ultimately show "\<exists>g. weighted (''a'', Fin (2 ^ 1023)) [(''b'', Fin (2 ^ 1023))]
             (\<lambda>n :: nat. (Inr (Fin 0), Suc n)) = Inr g
          \<and> next_gen g () 0 = (Inl (Error ''Uhhh... bad!!!!''), 1)"
    by blast
qed

section \<open>Structural combinators: lists\<close>

lemma js_store_append: "js_store result (length result) v = result @ [Val v]"
  by (simp add: js_store_def)

lemma list_loop_calls:
  "n - i = k \<Longrightarrow> i \<le> n \<Longrightarrow> length result = i \<Longrightarrow>
   list_loop gen (real n) i result s =
     (case call_n_times k (next_gen gen ()) s of
        (Inl e, s') \<Rightarrow> (Inl e, s')
      | (Inr vs, s') \<Rightarrow> (Inr (result @ map Val vs), s'))"
proof (induction k arbitrary: i result s)
  case 0
  then have "\<not> real i < real n"
    by simp
  then show ?case
    by (subst list_loop.simps) simp
next
  case (Suc k)
  then have lt: "real i < real n"
    by simp
  obtain r s1 where draw: "next_gen gen () s = (r, s1)"
    by (cases "next_gen gen () s")
  show ?case
  proof (cases r)
    case (Inl e)
    with lt draw show ?thesis
      by (subst list_loop.simps) simp
  next
    case (Inr v)
    have "list_loop gen (real n) i result s =
        list_loop gen (real n) (i + 1) (js_store result i v) s1"
      using lt draw Inr by (subst list_loop.simps) simp
    also have "js_store result i v = result @ [Val v]"
      using Suc.prems(3) js_store_append [of result v] by simp
    also have "list_loop gen (real n) (i + 1) (result @ [Val v]) s1 =
        (case call_n_times k (next_gen gen ()) s1 of
           (Inl e, s') \<Rightarrow> (Inl e, s')
         | (Inr vs, s') \<Rightarrow> (Inr ((result @ [Val v]) @ map Val vs), s'))"
      using Suc.prems by (intro Suc.IH) simp_all
    finally show ?thesis
      using draw Inr by (simp split: prod.split sum.split)
  qed
qed

lemma source_of_list_gen:
  "source_of (list_gen (real n) gen) s =
     (case call_n_times n (next_gen gen ()) s of
        (Inl e, s') \<Rightarrow> (Inl e, s')
      | (Inr vs, s') \<Rightarrow> (Inr (map Val vs), s'))"
  using list_loop_calls [of n 0 n "[]" gen s]
  by (simp add: list_gen_def source_of_generate split: prod.split sum.split)

lemma length_call_n_times:
  "call_n_times n src s = (Inr vs, s') \<Longrightarrow> length vs = n"
  by (induction n arbitrary: s vs) (auto split: prod.splits sum.splits)

lemma call_n_times_constant_gen:
  "call_n_times n (next_gen (constant_gen v) ()) s = (Inr (replicate n v), s)"
  by (induction n) (simp_all add: next_gen_source source_of_constant_gen)

text \<open>
  Claim C8. For a natural number \<open>n\<close>, one call of \<open>list(n, gen).next()\<close> is \<open>n\<close> calls
  of \<open>gen.next()\<close> one after the other, each from the state the one before left, and
  the result is the sequence of their results in that order. With \<open>n = 0\<close> the result is
  the empty sequence and the state is untouched, whatever \<open>gen\<close> is. A sequence that is
  returned has length \<open>n\<close>, and \<open>list(10, constant("X")).next()\<close> is ten copies of
  \<open>"X"\<close>.
\<close>

theorem list_gen_next:
  "next_gen (list_gen (real n) gen) () s =
     (case call_n_times n (next_gen gen ()) s of
        (Inl e, s') \<Rightarrow> (Inl e, s')
      | (Inr vs, s') \<Rightarrow> (Inr (map Val vs), s'))
   \<and> next_gen (list_gen 0 gen) () s = (Inr [], s)
   \<and> (next_gen (list_gen (real n) gen) () s = (Inr xs, s') \<longrightarrow> length xs = n)
   \<and> next_gen (list_gen 10 (constant_gen ''X'')) () s = (Inr (replicate 10 (Val ''X'')), s)"
proof (intro conjI impI)
  show "next_gen (list_gen (real n) gen) () s =
     (case call_n_times n (next_gen gen ()) s of
        (Inl e, s') \<Rightarrow> (Inl e, s')
      | (Inr vs, s') \<Rightarrow> (Inr (map Val vs), s'))"
    by (simp only: next_gen_source source_of_list_gen)
  show "next_gen (list_gen 0 gen) () s = (Inr [], s)"
    using source_of_list_gen [of 0 gen s] by (simp add: next_gen_source)
  show "next_gen (list_gen 10 (constant_gen ''X'')) () s = (Inr (replicate 10 (Val ''X'')), s)"
    using source_of_list_gen [of 10 "constant_gen ''X''" s]
    by (simp add: next_gen_source call_n_times_constant_gen)
next
  assume "next_gen (list_gen (real n) gen) () s = (Inr xs, s')"
  then have "(case call_n_times n (next_gen gen ()) s of
        (Inl e, s') \<Rightarrow> (Inl e, s')
      | (Inr vs, s') \<Rightarrow> (Inr (map Val vs), s')) = (Inr xs, s')"
    by (simp only: next_gen_source source_of_list_gen)
  then obtain vs where "call_n_times n (next_gen gen ()) s = (Inr vs, s')" and "xs = map Val vs"
    by (auto split: prod.splits sum.splits)
  then show "length xs = n"
    by (simp add: length_call_n_times)
qed

theorem list_gen_next_witness:
  "next_gen (list_gen 3 (generate (\<lambda>n :: nat. (Inr n, Suc n)))) () 5
     = (Inr [Val 5, Val 6, Val 7], 8)
   \<and> length [Val (5 :: nat), Val 6, Val 7] = 3"
  using list_gen_next [of 3 "generate (\<lambda>n :: nat. (Inr n, Suc n))" 5 "[Val 5, Val 6, Val 7]" 8]
  by (simp add: eval_nat_numeral next_gen_source source_of_generate)

end
